theory Spec2Isabelle
  imports Main "HOL-Library.Word"
begin

section \<open>JavaScript strings\<close>

text \<open>
  A JavaScript string is a sequence of UTF-16 code units, and \<open>.length\<close>, \<open>trim\<close> and a
  regular expression without the \<open>u\<close> flag all work on code units. String literals of
  the script are ASCII and are written through \<open>str\<close>.
\<close>

type_synonym code_unit = "16 word"
type_synonym jsstring = "code_unit list"

definition cu :: "char \<Rightarrow> code_unit" where
  "cu c = of_nat (of_char c)"

definition str :: "string \<Rightarrow> jsstring" where
  "str s = map cu s"

text \<open>
  The code units that \<open>String.prototype.trim\<close> strips and that \<open>\s\<close> matches:
  WhiteSpace and LineTerminator of ECMAScript.
\<close>

definition is_space :: "code_unit \<Rightarrow> bool" where
  "is_space c \<longleftrightarrow>
     c = 0x09 \<or> c = 0x0A \<or> c = 0x0B \<or> c = 0x0C \<or> c = 0x0D \<or> c = 0x20 \<or> c = 0xA0
     \<or> c = 0x1680 \<or> (0x2000 \<le> c \<and> c \<le> 0x200A) \<or> c = 0x2028 \<or> c = 0x2029
     \<or> c = 0x202F \<or> c = 0x205F \<or> c = 0x3000 \<or> c = 0xFEFF"

definition trim :: "jsstring \<Rightarrow> jsstring" where
  "trim s = rev (dropWhile is_space (rev (dropWhile is_space s)))"

section \<open>Regular expressions\<close>

text \<open>
  The constructs of the one pattern of the script, \<open>/^\S+@\S+\.\S+$/\<close>, closed under
  derivatives. The pattern has no flags, so \<open>test\<close> is stateless, and it is anchored at
  both ends, so \<open>test\<close> holds exactly when the whole string is matched.
\<close>

datatype atom = NonSpace | Lit code_unit

datatype regex = Zero | One | Atom atom | Alt regex regex | Seq regex regex | Star regex

fun atom_matches :: "atom \<Rightarrow> code_unit \<Rightarrow> bool" where
  "atom_matches NonSpace c = (\<not> is_space c)"
| "atom_matches (Lit d) c = (c = d)"

fun nullable :: "regex \<Rightarrow> bool" where
  "nullable Zero = False"
| "nullable One = True"
| "nullable (Atom a) = False"
| "nullable (Alt r s) = (nullable r \<or> nullable s)"
| "nullable (Seq r s) = (nullable r \<and> nullable s)"
| "nullable (Star r) = True"

fun deriv :: "code_unit \<Rightarrow> regex \<Rightarrow> regex" where
  "deriv c Zero = Zero"
| "deriv c One = Zero"
| "deriv c (Atom a) = (if atom_matches a c then One else Zero)"
| "deriv c (Alt r s) = Alt (deriv c r) (deriv c s)"
| "deriv c (Seq r s) =
     (if nullable r then Alt (Seq (deriv c r) s) (deriv c s) else Seq (deriv c r) s)"
| "deriv c (Star r) = Seq (deriv c r) (Star r)"

fun regex_test :: "regex \<Rightarrow> jsstring \<Rightarrow> bool" where
  "regex_test r [] = nullable r"
| "regex_test r (c # cs) = regex_test (deriv c r) cs"

definition Plus :: "regex \<Rightarrow> regex" where
  "Plus r = Seq r (Star r)"

text \<open>\<open>/^\S+@\S+\.\S+$/\<close>\<close>

definition email_re :: regex where
  "email_re =
     Seq (Plus (Atom NonSpace))
       (Seq (Atom (Lit (cu CHR ''@'')))
         (Seq (Plus (Atom NonSpace))
           (Seq (Atom (Lit (cu CHR ''.'')))
             (Plus (Atom NonSpace)))))"

section \<open>Form validation\<close>

datatype validation = Ok | NotOk jsstring

text \<open>
  \<open>validateForm(name, email, mood)\<close>. The three arguments are the values of form
  controls, so strings; \<open>!s\<close> on a string holds exactly for the empty one.
\<close>

definition validateForm :: "jsstring \<Rightarrow> jsstring \<Rightarrow> jsstring \<Rightarrow> validation" where
  "validateForm name email mood =
     (if name = [] \<or> length (trim name) < 2
        then NotOk (str ''Name must be at least 2 characters.'')
      else if email = [] \<or> \<not> regex_test email_re email
        then NotOk (str ''Please enter a valid email.'')
      else if mood = [] then NotOk (str ''Please pick a mood/type.'')
      else Ok)"

text \<open>
  The shape the specification gives for an email: one or more non-space characters,
  \<open>@\<close>, one or more non-space characters, \<open>.\<close>, one or more non-space characters.
\<close>

definition non_spaces :: "jsstring \<Rightarrow> bool" where
  "non_spaces w \<longleftrightarrow> w \<noteq> [] \<and> list_all (\<lambda>c. \<not> is_space c) w"

definition email_shape :: "jsstring \<Rightarrow> bool" where
  "email_shape e \<longleftrightarrow>
     (\<exists>a b c. e = a @ cu CHR ''@'' # b @ cu CHR ''.'' # c
        \<and> non_spaces a \<and> non_spaces b \<and> non_spaces c)"

section \<open>JSON values\<close>

text \<open>
  The script keeps its data in \<open>localStorage\<close> as JSON text, through \<open>JSON.stringify\<close>
  and \<open>JSON.parse\<close>. These are the platform's; they are modelled here on the values the
  script stores: \<open>null\<close>, booleans, integers, strings, arrays, and objects as lists of
  properties in insertion order. A number of JavaScript is a double: integers are exact
  up to \<open>2^53\<close> and written in decimal up to \<open>10^21\<close>, which the ids and lengths of the
  script stay far below; other numbers are outside the model. Property names that are
  array indices, which an object enumerates first, do not occur in the script.
\<close>

datatype json =
    JNull
  | JBool bool
  | JNum int
  | JStr jsstring
  | JArr "json list"
  | JObj "(jsstring \<times> json) list"

text \<open>
  What a call can throw. \<open>Unsupported\<close> marks a text that \<open>JSON.parse\<close> accepts and the
  model does not represent (a number with a fraction or an exponent); \<open>OutOfFuel\<close> is
  what the parser below returns when its fuel is used up, which \<open>JSON_parse\<close> never
  lets happen.
\<close>

datatype error = SyntaxError | TypeError | Unsupported | OutOfFuel

subsection \<open>JSON.stringify\<close>

text \<open>
  The compact form, without a replacer or indentation. In a string, the quote, the
  backslash and the control characters are escaped, and so is a surrogate that is not
  half of a pair.
\<close>

definition digit_char :: "int \<Rightarrow> code_unit" where
  "digit_char d = of_int (48 + d)"

function digits :: "int \<Rightarrow> jsstring" where
  "digits n = (if n < 10 then [digit_char n] else digits (n div 10) @ [digit_char (n mod 10)])"
  by pat_completeness auto
termination
  by (relation "measure nat") auto

declare digits.simps [simp del]

definition show_int :: "int \<Rightarrow> jsstring" where
  "show_int n = (if n < 0 then cu CHR ''-'' # digits (- n) else digits n)"

definition hex_digit :: "int \<Rightarrow> code_unit" where
  "hex_digit d = (if d < 10 then of_int (48 + d) else of_int (87 + d))"

definition escape_u :: "code_unit \<Rightarrow> jsstring" where
  "escape_u c =
     [cu CHR 0x5C, cu CHR ''u'',
      hex_digit (uint c div 4096 mod 16), hex_digit (uint c div 256 mod 16),
      hex_digit (uint c div 16 mod 16), hex_digit (uint c mod 16)]"

definition is_high_surrogate :: "code_unit \<Rightarrow> bool" where
  "is_high_surrogate c \<longleftrightarrow> 0xD800 \<le> c \<and> c \<le> 0xDBFF"

definition is_low_surrogate :: "code_unit \<Rightarrow> bool" where
  "is_low_surrogate c \<longleftrightarrow> 0xDC00 \<le> c \<and> c \<le> 0xDFFF"

fun quote_chars :: "jsstring \<Rightarrow> jsstring" where
  "quote_chars [] = []"
| "quote_chars (c # cs) =
     (if c = 0x22 then [0x5C, 0x22] @ quote_chars cs
      else if c = 0x5C then [0x5C, 0x5C] @ quote_chars cs
      else if c = 0x08 then [0x5C, cu CHR ''b''] @ quote_chars cs
      else if c = 0x0C then [0x5C, cu CHR ''f''] @ quote_chars cs
      else if c = 0x0A then [0x5C, cu CHR ''n''] @ quote_chars cs
      else if c = 0x0D then [0x5C, cu CHR ''r''] @ quote_chars cs
      else if c = 0x09 then [0x5C, cu CHR ''t''] @ quote_chars cs
      else if c < 0x20 then escape_u c @ quote_chars cs
      else if is_high_surrogate c then
        (case cs of
           [] \<Rightarrow> escape_u c
         | d # ds \<Rightarrow>
             if is_low_surrogate d then c # d # quote_chars ds
             else escape_u c @ quote_chars cs)
      else if is_low_surrogate c then escape_u c @ quote_chars cs
      else c # quote_chars cs)"

definition quote :: "jsstring \<Rightarrow> jsstring" where
  "quote s = 0x22 # quote_chars s @ [0x22]"

fun join :: "jsstring list \<Rightarrow> jsstring" where
  "join [] = []"
| "join [x] = x"
| "join (x # y # ys) = x @ cu CHR '','' # join (y # ys)"

fun JSON_stringify :: "json \<Rightarrow> jsstring" where
  "JSON_stringify JNull = str ''null''"
| "JSON_stringify (JBool b) = (if b then str ''true'' else str ''false'')"
| "JSON_stringify (JNum n) = show_int n"
| "JSON_stringify (JStr s) = quote s"
| "JSON_stringify (JArr vs) = cu CHR ''['' # join (map JSON_stringify vs) @ [cu CHR '']'']"
| "JSON_stringify (JObj kvs) =
     cu CHR ''{'' # join (map (\<lambda>(k, v). quote k @ cu CHR '':'' # JSON_stringify v) kvs)
       @ [cu CHR ''}'']"


subsection \<open>JSON.parse\<close>

text \<open>
  A recursive-descent parser of the JSON grammar. The recursion through arrays and
  objects is on a fuel that each call uses one of; \<open>JSON_parse\<close> starts with more than
  twice the length of the text, which is enough for every text.
\<close>

definition is_json_ws :: "code_unit \<Rightarrow> bool" where
  "is_json_ws c \<longleftrightarrow> c = 0x20 \<or> c = 0x09 \<or> c = 0x0A \<or> c = 0x0D"

definition skip_ws :: "jsstring \<Rightarrow> jsstring" where
  "skip_ws cs = dropWhile is_json_ws cs"

definition is_digit :: "code_unit \<Rightarrow> bool" where
  "is_digit c \<longleftrightarrow> 0x30 \<le> c \<and> c \<le> 0x39"

definition hex_val :: "code_unit \<Rightarrow> int option" where
  "hex_val c =
     (if 0x30 \<le> c \<and> c \<le> 0x39 then Some (uint c - 48)
      else if 0x41 \<le> c \<and> c \<le> 0x46 then Some (uint c - 55)
      else if 0x61 \<le> c \<and> c \<le> 0x66 then Some (uint c - 87)
      else None)"

definition hex4_val :: "code_unit \<Rightarrow> code_unit \<Rightarrow> code_unit \<Rightarrow> code_unit \<Rightarrow> code_unit option" where
  "hex4_val a b c d =
     (case (hex_val a, hex_val b, hex_val c, hex_val d) of
        (Some w, Some x, Some y, Some z) \<Rightarrow> Some (of_int (4096 * w + 256 * x + 16 * y + z))
      | _ \<Rightarrow> None)"

definition unescape :: "code_unit \<Rightarrow> code_unit option" where
  "unescape e =
     (if e = 0x22 then Some 0x22
      else if e = 0x5C then Some 0x5C
      else if e = cu CHR ''/'' then Some (cu CHR ''/'')
      else if e = cu CHR ''b'' then Some 0x08
      else if e = cu CHR ''f'' then Some 0x0C
      else if e = cu CHR ''n'' then Some 0x0A
      else if e = cu CHR ''r'' then Some 0x0D
      else if e = cu CHR ''t'' then Some 0x09
      else None)"

text \<open>The characters of a string literal after its opening quote, up to the closing one.\<close>

fun parse_chars :: "jsstring \<Rightarrow> (jsstring \<times> jsstring) option" where
  "parse_chars [] = None"
| "parse_chars (c # cs) =
     (if c = 0x22 then Some ([], cs)
      else if c = 0x5C then
        (case cs of
           [] \<Rightarrow> None
         | e # es \<Rightarrow>
             if e = cu CHR ''u'' then
               (case es of
                  h1 # h2 # h3 # h4 # r \<Rightarrow>
                    (case hex4_val h1 h2 h3 h4 of
                       None \<Rightarrow> None
                     | Some u \<Rightarrow>
                         (case parse_chars r of
                            None \<Rightarrow> None
                          | Some (s, rest) \<Rightarrow> Some (u # s, rest)))
                | _ \<Rightarrow> None)
             else
               (case unescape e of
                  None \<Rightarrow> None
                | Some u \<Rightarrow>
                    (case parse_chars es of
                       None \<Rightarrow> None
                     | Some (s, rest) \<Rightarrow> Some (u # s, rest))))
      else if c < 0x20 then None
      else
        (case parse_chars cs of
           None \<Rightarrow> None
         | Some (s, rest) \<Rightarrow> Some (c # s, rest)))"

definition digit_val :: "code_unit \<Rightarrow> int" where
  "digit_val c = uint c - 48"

definition read_digits :: "jsstring \<Rightarrow> int" where
  "read_digits ds = foldl (\<lambda>a c. 10 * a + digit_val c) 0 ds"

text \<open>
  A number literal. Numbers of the model are integers: a literal with a fraction or an
  exponent denotes a double, which is outside the model (\<open>Unsupported\<close>).
\<close>

definition parse_digits :: "jsstring \<Rightarrow> error + (int \<times> jsstring)" where
  "parse_digits cs =
     (let ds = takeWhile is_digit cs; rest = dropWhile is_digit cs
      in if ds = [] then Inl SyntaxError
         else if hd ds = cu CHR ''0'' \<and> tl ds \<noteq> [] then Inl SyntaxError
         else if rest \<noteq> [] \<and> hd rest \<in> {cu CHR ''.'', cu CHR ''e'', cu CHR ''E''}
           then Inl Unsupported
         else Inr (read_digits ds, rest))"

definition parse_number :: "jsstring \<Rightarrow> error + (json \<times> jsstring)" where
  "parse_number cs =
     (case cs of
        [] \<Rightarrow> Inl SyntaxError
      | c # r \<Rightarrow>
          if c = cu CHR ''-'' then
            (case parse_digits r of
               Inl e \<Rightarrow> Inl e
             | Inr (n, rest) \<Rightarrow> Inr (JNum (- n), rest))
          else
            (case parse_digits cs of
               Inl e \<Rightarrow> Inl e
             | Inr (n, rest) \<Rightarrow> Inr (JNum n, rest)))"

definition parse_literal :: "jsstring \<Rightarrow> json \<Rightarrow> jsstring \<Rightarrow> error + (json \<times> jsstring)" where
  "parse_literal w v cs =
     (if take (length w) cs = w then Inr (v, drop (length w) cs) else Inl SyntaxError)"

text \<open>
  Defining a property that the object already has replaces its value and keeps its
  place; a new property goes last.
\<close>

fun obj_set :: "jsstring \<Rightarrow> json \<Rightarrow> (jsstring \<times> json) list \<Rightarrow> (jsstring \<times> json) list" where
  "obj_set k v [] = [(k, v)]"
| "obj_set k v ((k', v') # kvs) =
     (if k' = k then (k, v) # kvs else (k', v') # obj_set k v kvs)"

definition obj_of_members :: "(jsstring \<times> json) list \<Rightarrow> (jsstring \<times> json) list" where
  "obj_of_members ms = foldl (\<lambda>kvs (k, v). obj_set k v kvs) [] ms"

fun parse_value :: "nat \<Rightarrow> jsstring \<Rightarrow> error + (json \<times> jsstring)"
  and parse_items :: "nat \<Rightarrow> jsstring \<Rightarrow> error + (json list \<times> jsstring)"
  and parse_members :: "nat \<Rightarrow> jsstring \<Rightarrow> error + ((jsstring \<times> json) list \<times> jsstring)"
where
  "parse_value 0 cs = Inl OutOfFuel"
| "parse_value (Suc n) [] = Inl SyntaxError"
| "parse_value (Suc n) (c # cs) =
     (if c = cu CHR ''['' then
        (case skip_ws cs of
           [] \<Rightarrow> Inl SyntaxError
         | d # ds \<Rightarrow>
             if d = cu CHR '']'' then Inr (JArr [], ds)
             else
               (case parse_items n (d # ds) of
                  Inl e \<Rightarrow> Inl e
                | Inr (vs, rest) \<Rightarrow> Inr (JArr vs, rest)))
      else if c = cu CHR ''{'' then
        (case skip_ws cs of
           [] \<Rightarrow> Inl SyntaxError
         | d # ds \<Rightarrow>
             if d = cu CHR ''}'' then Inr (JObj [], ds)
             else
               (case parse_members n (d # ds) of
                  Inl e \<Rightarrow> Inl e
                | Inr (ms, rest) \<Rightarrow> Inr (JObj (obj_of_members ms), rest)))
      else if c = 0x22 then
        (case parse_chars cs of
           None \<Rightarrow> Inl SyntaxError
         | Some (s, rest) \<Rightarrow> Inr (JStr s, rest))
      else if c = cu CHR ''t'' then parse_literal (str ''true'') (JBool True) (c # cs)
      else if c = cu CHR ''f'' then parse_literal (str ''false'') (JBool False) (c # cs)
      else if c = cu CHR ''n'' then parse_literal (str ''null'') JNull (c # cs)
      else parse_number (c # cs))"
| "parse_items 0 cs = Inl OutOfFuel"
| "parse_items (Suc n) cs =
     (case parse_value n cs of
        Inl e \<Rightarrow> Inl e
      | Inr (v, r) \<Rightarrow>
          (case skip_ws r of
             [] \<Rightarrow> Inl SyntaxError
           | d # ds \<Rightarrow>
               if d = cu CHR '','' then
                 (case parse_items n (skip_ws ds) of
                    Inl e \<Rightarrow> Inl e
                  | Inr (vs, rest) \<Rightarrow> Inr (v # vs, rest))
               else if d = cu CHR '']'' then Inr ([v], ds)
               else Inl SyntaxError))"
| "parse_members 0 cs = Inl OutOfFuel"
| "parse_members (Suc n) [] = Inl SyntaxError"
| "parse_members (Suc n) (c # cs) =
     (if c \<noteq> 0x22 then Inl SyntaxError
      else
        (case parse_chars cs of
           None \<Rightarrow> Inl SyntaxError
         | Some (k, r) \<Rightarrow>
             (case skip_ws r of
                [] \<Rightarrow> Inl SyntaxError
              | d # ds \<Rightarrow>
                  if d \<noteq> cu CHR '':'' then Inl SyntaxError
                  else
                    (case parse_value n (skip_ws ds) of
                       Inl e \<Rightarrow> Inl e
                     | Inr (v, r') \<Rightarrow>
                         (case skip_ws r' of
                            [] \<Rightarrow> Inl SyntaxError
                          | d' # ds' \<Rightarrow>
                              if d' = cu CHR '','' then
                                (case parse_members n (skip_ws ds') of
                                   Inl e \<Rightarrow> Inl e
                                 | Inr (ms, rest) \<Rightarrow> Inr ((k, v) # ms, rest))
                              else if d' = cu CHR ''}'' then Inr ([(k, v)], ds')
                              else Inl SyntaxError)))))"

definition JSON_parse :: "jsstring \<Rightarrow> error + json" where
  "JSON_parse s =
     (case parse_value (Suc (2 * length s)) (skip_ws s) of
        Inl e \<Rightarrow> Inl e
      | Inr (v, rest) \<Rightarrow> if skip_ws rest = [] then Inr v else Inl SyntaxError)"

section \<open>Values read back from storage\<close>

text \<open>
  What \<open>JSON.parse\<close> returns is untyped, and the script uses it without a check.
  \<open>truthy\<close> is the condition of \<open>if\<close>, \<open>&&\<close> and \<open>?:\<close>; \<open>get_prop v k\<close> is the
  property read \<open>v.k\<close>, which throws on \<open>null\<close> and gives \<open>undefined\<close> (\<open>None\<close>) for a
  property that is not there. The script reads the properties \<open>id\<close> and \<open>mood\<close> this way;
  a string, number, boolean or array has neither.
\<close>

fun truthy :: "json \<Rightarrow> bool" where
  "truthy JNull = False"
| "truthy (JBool b) = b"
| "truthy (JNum n) = (n \<noteq> 0)"
| "truthy (JStr s) = (s \<noteq> [])"
| "truthy (JArr vs) = True"
| "truthy (JObj kvs) = True"

fun get_prop :: "json \<Rightarrow> jsstring \<Rightarrow> error + json option" where
  "get_prop JNull k = Inl TypeError"
| "get_prop (JObj kvs) k = Inr (map_of kvs k)"
| "get_prop v k = Inr None"

text \<open>
  \<open>a === b\<close> on two values read from parsed JSON. Primitives compare by value; an
  array or an object is equal only to itself, and \<open>same\<close> says whether the two
  operands are the same node of the parsed value.
\<close>

fun strict_eq :: "bool \<Rightarrow> json option \<Rightarrow> json option \<Rightarrow> bool" where
  "strict_eq same None None = True"
| "strict_eq same (Some JNull) (Some JNull) = True"
| "strict_eq same (Some (JBool a)) (Some (JBool b)) = (a = b)"
| "strict_eq same (Some (JNum a)) (Some (JNum b)) = (a = b)"
| "strict_eq same (Some (JStr a)) (Some (JStr b)) = (a = b)"
| "strict_eq same (Some (JArr a)) (Some (JArr b)) = same"
| "strict_eq same (Some (JObj a)) (Some (JObj b)) = same"
| "strict_eq same a b = False"

section \<open>The catalog\<close>

text \<open>
  A song of \<open>SONGS\<close>. The fields \<open>id\<close> and \<open>length\<close> of the script are \<open>song_id\<close> and
  \<open>song_length\<close> here. Numbers are integers throughout the script.
\<close>

record song =
  song_id :: int
  title :: jsstring
  artist :: jsstring
  mood :: jsstring
  url :: jsstring
  song_length :: int

definition SONGS :: "song list" where
  "SONGS =
    [\<lparr>song_id = 1, title = str ''Calm Breeze'', artist = str ''Ocean Studio'',
      mood = str ''chill'',
      url = str ''https://www.soundhelix.com/examples/mp3/SoundHelix-Song-1.mp3'',
      song_length = 320\<rparr>,
     \<lparr>song_id = 2, title = str ''Power Run'', artist = str ''Gym Beats'',
      mood = str ''workout'',
      url = str ''https://www.soundhelix.com/examples/mp3/SoundHelix-Song-2.mp3'',
      song_length = 240\<rparr>,
     \<lparr>song_id = 3, title = str ''Neon Party'', artist = str ''Clubline'',
      mood = str ''party'',
      url = str ''https://www.soundhelix.com/examples/mp3/SoundHelix-Song-3.mp3'',
      song_length = 300\<rparr>,
     \<lparr>song_id = 4, title = str ''Focus Flow'', artist = str ''StudyWave'',
      mood = str ''focus'',
      url = str ''https://www.soundhelix.com/examples/mp3/SoundHelix-Song-4.mp3'',
      song_length = 420\<rparr>,
     \<lparr>song_id = 5, title = str ''Mellow Night'', artist = str ''Midnight'',
      mood = str ''chill'',
      url = str ''https://www.soundhelix.com/examples/mp3/SoundHelix-Song-5.mp3'',
      song_length = 360\<rparr>]"

text \<open>The object a song is, with its properties in the order of the literal.\<close>

definition song_obj :: "song \<Rightarrow> (jsstring \<times> json) list" where
  "song_obj s =
    [(str ''id'', JNum (song_id s)), (str ''title'', JStr (title s)),
     (str ''artist'', JStr (artist s)), (str ''mood'', JStr (mood s)),
     (str ''url'', JStr (url s)), (str ''length'', JNum (song_length s))]"

text \<open>\<open>xs.findIndex(p)\<close>: the first index whose element satisfies \<open>p\<close>, or \<open>-1\<close>.\<close>

fun findIndex :: "('a \<Rightarrow> bool) \<Rightarrow> 'a list \<Rightarrow> int" where
  "findIndex p [] = - 1"
| "findIndex p (x # xs) =
     (if p x then 0 else (let i = findIndex p xs in if i = - 1 then - 1 else i + 1))"

section \<open>localStorage helpers\<close>

text \<open>
  \<open>localStorage\<close> maps a key to a text. \<open>setItem\<close> is taken to succeed: the script has
  no handling of a full store.
\<close>

type_synonym storage = "jsstring \<rightharpoonup> jsstring"

definition USER :: jsstring where
  "USER = str ''mp_user''"

definition SAVED :: jsstring where
  "SAVED = str ''mp_saved_songs''"

definition saveToStorage :: "jsstring \<Rightarrow> json \<Rightarrow> storage \<Rightarrow> storage" where
  "saveToStorage key v st = st(key \<mapsto> JSON_stringify v)"

text \<open>
  \<open>raw ? JSON.parse(raw) : fallback\<close>: \<open>getItem\<close> gives \<open>null\<close> for a key that is not
  there, and of the texts only the empty one is falsy.
\<close>

definition loadFromStorage :: "storage \<Rightarrow> jsstring \<Rightarrow> json \<Rightarrow> error + json" where
  "loadFromStorage st key fallback =
     (case st key of
        None \<Rightarrow> Inr fallback
      | Some raw \<Rightarrow> if raw = [] then Inr fallback else JSON_parse raw)"

section \<open>The Suggestions page\<close>

text \<open>
  The elements of the document that playback touches: the \<open>audio\<close> element, with its
  source and the number of calls of \<open>play()\<close> made on it, and the text of the \<open>now\<close>
  element. \<open>getElementById\<close> gives \<open>null\<close> for an element that is not in the page.
  The promise that \<open>play()\<close> returns is only ever given a handler that logs or does
  nothing, so whether playback starts changes nothing the script can see. Volume,
  play/pause, the greeting and the tips are outside the model.
\<close>

record audio_el =
  src :: jsstring
  play_requests :: nat

record dom =
  audio :: "audio_el option"
  now :: "jsstring option"

record page =
  chosen :: "song list"
  currentIndex :: int
  doc :: dom

text \<open>
  \<open>user && user.mood ? SONGS.filter(s => s.mood === user.mood) : SONGS.slice()\<close>
\<close>

definition chosen_of :: "json \<Rightarrow> error + song list" where
  "chosen_of user =
     (if \<not> truthy user then Inr SONGS
      else
        (case get_prop user (str ''mood'') of
           Inl e \<Rightarrow> Inl e
         | Inr None \<Rightarrow> Inr SONGS
         | Inr (Some m) \<Rightarrow>
             if truthy m then Inr (filter (\<lambda>s. m = JStr (mood s)) SONGS) else Inr SONGS))"

text \<open>
  \<open>initSuggestionsPage\<close> up to its \<open>await\<close>: \<open>audio.volume = ...\<close> throws when there is
  no \<open>audio\<close> element; the stored preferences are loaded and the list is built; one
  entry with a Play and a Save button is rendered for each song of \<open>chosen\<close>.
\<close>

definition initSuggestionsPage :: "storage \<Rightarrow> dom \<Rightarrow> error + page" where
  "initSuggestionsPage st d =
     (case audio d of
        None \<Rightarrow> Inl TypeError
      | Some a \<Rightarrow>
          (case loadFromStorage st USER JNull of
             Inl e \<Rightarrow> Inl e
           | Inr user \<Rightarrow>
               (case chosen_of user of
                  Inl e \<Rightarrow> Inl e
                | Inr cs \<Rightarrow> Inr \<lparr>chosen = cs, currentIndex = - 1, doc = d\<rparr>)))"

text \<open>
  \<open>playSongAtIndex\<close>: the order of the three statements is kept, so a page without a
  \<open>now\<close> element throws after the source is set; the thrown handler's page is not
  followed further.
\<close>

definition playSongAtIndex :: "int \<Rightarrow> dom \<Rightarrow> error + dom" where
  "playSongAtIndex idx d =
     (if idx < 0 \<or> idx \<ge> int (length SONGS) then Inr d
      else
        (let s = SONGS ! nat idx in
         case audio d of
           None \<Rightarrow> Inl TypeError
         | Some a \<Rightarrow>
             (case now d of
                None \<Rightarrow> Inl TypeError
              | Some t \<Rightarrow>
                  Inr \<lparr>audio = Some \<lparr>src = url s, play_requests = Suc (play_requests a)\<rparr>,
                       now = Some (str ''Playing: '' @ title s @ [0x20, 0x2014, 0x20] @ artist s)\<rparr>)))"

text \<open>
  \<open>a % b\<close> on integers: the remainder has the sign of \<open>a\<close>. The one use has
  \<open>b = SONGS.length\<close>, which is not zero.
\<close>

definition js_rem :: "int \<Rightarrow> int \<Rightarrow> int" where
  "js_rem a b = (if a < 0 then - ((- a) mod \<bar>b\<bar>) else a mod \<bar>b\<bar>)"

definition changeTrack :: "int \<Rightarrow> page \<Rightarrow> error + page" where
  "changeTrack dir p =
     (let i = (if currentIndex p = - 1 then 0
               else js_rem (currentIndex p + dir + int (length SONGS)) (int (length SONGS)))
      in case playSongAtIndex i (doc p) of
           Inl e \<Rightarrow> Inl e
         | Inr d \<Rightarrow> Inr (p\<lparr>currentIndex := i, doc := d\<rparr>))"

text \<open>The click handler of the Play button rendered for \<open>s\<close>.\<close>

definition playClick :: "song \<Rightarrow> page \<Rightarrow> error + page" where
  "playClick s p =
     (let i = findIndex (\<lambda>x. song_id x = song_id s) SONGS
      in case playSongAtIndex i (doc p) of
           Inl e \<Rightarrow> Inl e
         | Inr d \<Rightarrow> Inr (p\<lparr>currentIndex := i, doc := d\<rparr>))"

text \<open>
  The play actions of the page: the Play button of a displayed song, Prev, Next, and the
  \<open>ended\<close> event of the audio element.
\<close>

datatype play_action = PlayClick song | Prev | Next | Ended

fun act :: "play_action \<Rightarrow> page \<Rightarrow> error + page" where
  "act (PlayClick s) p = playClick s p"
| "act Prev p = changeTrack (- 1) p"
| "act Next p = changeTrack 1 p"
| "act Ended p = changeTrack 1 p"

fun run :: "play_action list \<Rightarrow> page \<Rightarrow> error + page" where
  "run [] p = Inr p"
| "run (a # as) p = (case act a p of Inl e \<Rightarrow> Inl e | Inr p' \<Rightarrow> run as p')"

text \<open>A Play button exists for the songs of \<open>chosen\<close> only.\<close>

fun possible :: "page \<Rightarrow> play_action \<Rightarrow> bool" where
  "possible p (PlayClick s) = (s \<in> set (chosen p))"
| "possible p a = True"

subsection \<open>Saving a song\<close>

text \<open>
  \<open>saved.some(s => s.id === song.id)\<close> on the elements of an array: it stops at the
  first hit, and reading \<open>id\<close> of a \<open>null\<close> element throws. \<open>song.id\<close> is a number.
\<close>

fun some_id :: "json list \<Rightarrow> int \<Rightarrow> error + bool" where
  "some_id [] n = Inr False"
| "some_id (s # ss) n =
     (case get_prop s (str ''id'') of
        Inl e \<Rightarrow> Inl e
      | Inr v \<Rightarrow> if strict_eq False v (Some (JNum n)) then Inr True else some_id ss n)"

text \<open>
  \<open>saveSong(song)\<close>; \<open>ts\<close> is what \<open>new Date().toISOString()\<close> gives at the call.
  A loaded value that is not an array has no method \<open>some\<close>. The function is bound
  after the \<open>await\<close> of the tips request: a Save click before that request has settled
  throws before it reaches the store, and leaves the store as it is.
\<close>

definition saveSong :: "song \<Rightarrow> jsstring \<Rightarrow> storage \<Rightarrow> error + storage" where
  "saveSong s ts st =
     (case loadFromStorage st SAVED (JArr []) of
        Inl e \<Rightarrow> Inl e
      | Inr (JArr saved) \<Rightarrow>
          (case some_id saved (song_id s) of
             Inl e \<Rightarrow> Inl e
           | Inr True \<Rightarrow> Inr st
           | Inr False \<Rightarrow>
               (let toSave = JObj (obj_set (str ''savedAt'') (JStr ts) (song_obj s))
                in Inr (saveToStorage SAVED (JArr (saved @ [toSave])) st)))
      | Inr v \<Rightarrow> Inl TypeError)"

section \<open>The Profile page\<close>

text \<open>
  What \<open>savedList\<close> shows: the placeholder entry, or one entry for each element of the
  loaded array, with the element its Play and Remove handlers close over.
\<close>

datatype saved_view = Placeholder | Entries "json list"

text \<open>
  \<open>renderSavedSongs\<close>. \<open>saved.length === 0\<close> also holds of the empty string and of an
  object whose \<open>length\<close> is \<open>0\<close>; any other value that is not an array has no method
  \<open>map\<close>. Rendering an element reads its properties, which throws on \<open>null\<close>.
  The title, artist and mood go into the entry as markup; those of the catalog are plain
  text, and what markup in them would do to the entry is outside the model.
\<close>

definition renderSavedSongs :: "storage \<Rightarrow> error + saved_view" where
  "renderSavedSongs st =
     (case loadFromStorage st SAVED (JArr []) of
        Inl e \<Rightarrow> Inl e
      | Inr JNull \<Rightarrow> Inl TypeError
      | Inr (JArr saved) \<Rightarrow>
          if length saved = 0 then Inr Placeholder
          else if JNull \<in> set saved then Inl TypeError
          else Inr (Entries saved)
      | Inr (JStr s) \<Rightarrow> if length s = 0 then Inr Placeholder else Inl TypeError
      | Inr (JObj kvs) \<Rightarrow>
          if map_of kvs (str ''length'') = Some (JNum 0) then Inr Placeholder
          else Inl TypeError
      | Inr v \<Rightarrow> Inl TypeError)"

text \<open>
  The click handler of the Remove button of the \<open>i\<close>-th entry:
  \<open>saved.filter(x => x.id !== s.id)\<close> over the array the page was rendered from, then
  save and render again. No entry of a rendered array is \<open>null\<close>. An index past the
  entries has no button, and nothing happens.
\<close>

definition id_of :: "json \<Rightarrow> json option" where
  "id_of x = (case get_prop x (str ''id'') of Inl e \<Rightarrow> None | Inr v \<Rightarrow> v)"

definition remaining :: "nat \<Rightarrow> json list \<Rightarrow> json list" where
  "remaining i saved =
     map snd (filter (\<lambda>(j, x). \<not> strict_eq (j = i) (id_of x) (id_of (saved ! i)))
       (enumerate 0 saved))"

definition removeClick :: "nat \<Rightarrow> json list \<Rightarrow> storage \<Rightarrow> storage \<times> (error + saved_view)" where
  "removeClick i saved st =
     (if i < length saved then
        (let st' = saveToStorage SAVED (JArr (remaining i saved)) st
         in (st', renderSavedSongs st'))
      else (st, Inr (Entries saved)))"

text \<open>The click handler of \<open>clearSaved\<close>.\<close>

definition clearClick :: "storage \<Rightarrow> storage \<times> (error + saved_view)" where
  "clearClick st = (let st' = st(SAVED := None) in (st', renderSavedSongs st'))"

section \<open>Playing from a link\<close>

text \<open>
  \<open>checkAutoPlayOnLoad\<close> gets the query string and what
  \<open>new URLSearchParams(search).get("play")\<close> gives for it, and returns the id for which
  \<open>attemptPlay\<close> is put on the timer, if any.
\<close>

definition checkAutoPlayOnLoad :: "jsstring \<Rightarrow> jsstring option \<Rightarrow> jsstring option" where
  "checkAutoPlayOnLoad search play =
     (if search = [] then None
      else case play of
             None \<Rightarrow> None
           | Some playId \<Rightarrow> if playId = [] then None else Some playId)"

text \<open>\<open>String(n)\<close> of an integer is its decimal text.\<close>

definition attemptPlay :: "jsstring \<Rightarrow> dom \<Rightarrow> dom" where
  "attemptPlay playId d =
     (let idx = findIndex (\<lambda>s. show_int (song_id s) = playId) SONGS
      in if idx \<noteq> - 1 then
           (case audio d of
              None \<Rightarrow> d
            | Some a \<Rightarrow>
                \<lparr>audio = Some \<lparr>src = url (SONGS ! nat idx), play_requests = Suc (play_requests a)\<rparr>,
                 now = (case now d of
                          None \<Rightarrow> None
                        | Some t \<Rightarrow> Some (str ''Playing: '' @ title (SONGS ! nat idx)))\<rparr>)
         else d)"

text \<open>The page when the timer has fired, from the page \<open>d\<close> it fires on.\<close>

definition autoPlay :: "jsstring \<Rightarrow> jsstring option \<Rightarrow> dom \<Rightarrow> dom" where
  "autoPlay search play d =
     (case checkAutoPlayOnLoad search play of
        None \<Rightarrow> d
      | Some playId \<Rightarrow> attemptPlay playId d)"

section \<open>Notions used in the proofs\<close>

subsection \<open>The language of a regular expression\<close>

inductive_set star :: "'a list set \<Rightarrow> 'a list set" for A where
  star_Nil: "[] \<in> star A"
| star_app: "u \<in> A \<Longrightarrow> v \<in> star A \<Longrightarrow> u @ v \<in> star A"

definition conc :: "'a list set \<Rightarrow> 'a list set \<Rightarrow> 'a list set" where
  "conc A B = {u @ v | u v. u \<in> A \<and> v \<in> B}"

fun lang :: "regex \<Rightarrow> jsstring set" where
  "lang Zero = {}"
| "lang One = {[]}"
| "lang (Atom a) = {[c] | c. atom_matches a c}"
| "lang (Alt r s) = lang r \<union> lang s"
| "lang (Seq r s) = conc (lang r) (lang s)"
| "lang (Star r) = star (lang r)"

subsection \<open>Well-formed values and the parser\<close>

text \<open>
  An object value of JavaScript has no two properties of the same name; \<open>wf_json\<close> says
  so of every object in a value. \<open>delim\<close> holds of what may follow a value inside a
  text, \<open>value_start\<close> of the first character of a serialized value, and \<open>value_ok v\<close>
  says that the parser reads the serialized \<open>v\<close> back, given as much fuel as the text is
  long.
\<close>

fun wf_json :: "json \<Rightarrow> bool" where
  "wf_json (JArr vs) = list_all wf_json vs"
| "wf_json (JObj kvs) = (distinct (map fst kvs) \<and> list_all (\<lambda>(k, v). wf_json v) kvs)"
| "wf_json v = True"

definition delim :: "jsstring \<Rightarrow> bool" where
  "delim rest \<longleftrightarrow>
     (case rest of [] \<Rightarrow> True
      | c # _ \<Rightarrow> c = cu CHR '','' \<or> c = cu CHR '']'' \<or> c = cu CHR ''}'')"

definition value_start :: "code_unit \<Rightarrow> bool" where
  "value_start c \<longleftrightarrow> \<not> is_json_ws c \<and> c \<noteq> cu CHR '']'' \<and> c \<noteq> cu CHR ''}''"

definition value_ok :: "json \<Rightarrow> bool" where
  "value_ok v \<longleftrightarrow>
     (\<forall>n rest. length (JSON_stringify v) \<le> n \<longrightarrow> delim rest \<longrightarrow>
        parse_value n (JSON_stringify v @ rest) = Inr (v, rest))"

definition cons_result :: "code_unit \<Rightarrow> (jsstring \<times> jsstring) option \<Rightarrow> (jsstring \<times> jsstring) option" where
  "cons_result c r = (case r of None \<Rightarrow> None | Some (s, rest) \<Rightarrow> Some (c # s, rest))"

definition member_text :: "jsstring \<times> json \<Rightarrow> jsstring" where
  "member_text = (\<lambda>(k, v). quote k @ cu CHR '':'' # JSON_stringify v)"

subsection \<open>Typed views of the stored records\<close>

text \<open>
  A saved song is \<open>{ ...song, savedAt }\<close>: the properties of the song, then the time.
\<close>

type_synonym saved_song = "song \<times> jsstring"

definition saved_obj :: "saved_song \<Rightarrow> json" where
  "saved_obj e = JObj (song_obj (fst e) @ [(str ''savedAt'', JStr (snd e))])"

definition saved_id :: "saved_song \<Rightarrow> int" where
  "saved_id e = song_id (fst e)"

text \<open>The saved list that the store holds, as \<open>saveSong\<close> and the Profile page load it.\<close>

definition persisted :: "storage \<Rightarrow> saved_song list \<Rightarrow> bool" where
  "persisted st ss \<longleftrightarrow>
     loadFromStorage st SAVED (JArr []) = Inr (JArr (map saved_obj ss))"

text \<open>
  The preferences the form handler stores: \<open>{ name, email, mood, savedAt }\<close>.
\<close>

record prefs =
  user_name :: jsstring
  user_email :: jsstring
  user_mood :: jsstring
  user_savedAt :: jsstring

definition user_obj :: "prefs \<Rightarrow> json" where
  "user_obj u =
     JObj [(str ''name'', JStr (user_name u)), (str ''email'', JStr (user_email u)),
           (str ''mood'', JStr (user_mood u)), (str ''savedAt'', JStr (user_savedAt u))]"

text \<open>The entries a view shows.\<close>

fun entries :: "saved_view \<Rightarrow> json list" where
  "entries Placeholder = []"
| "entries (Entries xs) = xs"

subsection \<open>A page to run on\<close>

text \<open>
  A Suggestions page with both elements, nothing loaded, and a store that holds the
  preferences of a user whose mood is \<open>chill\<close>: two songs of the catalog have it.
  \<open>shown\<close> is the number of songs displayed and \<open>index_after\<close> the current index after a
  sequence of play actions on the freshly initialised page.
\<close>

definition dom0 :: dom where
  "dom0 = \<lparr>audio = Some \<lparr>src = [], play_requests = 0\<rparr>, now = Some []\<rparr>"

definition chill_prefs :: prefs where
  "chill_prefs =
     \<lparr>user_name = str ''Al'', user_email = str ''a@b.com'', user_mood = str ''chill'',
      user_savedAt = str ''2024-05-01T10:00:00.000Z''\<rparr>"

definition chill_store :: storage where
  "chill_store = saveToStorage USER (user_obj chill_prefs) Map.empty"

definition shown :: "storage \<Rightarrow> dom \<Rightarrow> nat option" where
  "shown st d =
     (case initSuggestionsPage st d of Inl e \<Rightarrow> None | Inr p \<Rightarrow> Some (length (chosen p)))"

definition index_after :: "play_action list \<Rightarrow> storage \<Rightarrow> dom \<Rightarrow> int option" where
  "index_after as st d =
     (case initSuggestionsPage st d of
        Inl e \<Rightarrow> None
      | Inr p \<Rightarrow> (case run as p of Inl e \<Rightarrow> None | Inr p' \<Rightarrow> Some (currentIndex p')))"

text \<open>
  What holds of a Suggestions page between two events: both elements are there, every
  displayed song is a song of the catalog, and the index is unset or inside the catalog.
\<close>

definition page_inv :: "page \<Rightarrow> bool" where
  "page_inv p \<longleftrightarrow>
     audio (doc p) \<noteq> None \<and> now (doc p) \<noteq> None \<and> set (chosen p) \<subseteq> set SONGS
     \<and> - 1 \<le> currentIndex p \<and> currentIndex p < int (length SONGS)"

subsection \<open>What writes the saved list\<close>

text \<open>
  The three handlers that write the saved list: the Save button of a song (with the time
  of the click), the Remove button of the \<open>i\<close>-th entry of the Profile page as rendered
  from the store, and the clear-all control.
\<close>

datatype store_event = Save song jsstring | Remove nat | Clear

fun store_step :: "store_event \<Rightarrow> storage \<Rightarrow> error + storage" where
  "store_step (Save s ts) st = saveSong s ts st"
| "store_step (Remove i) st =
     (case renderSavedSongs st of
        Inl e \<Rightarrow> Inl e
      | Inr Placeholder \<Rightarrow> Inr st
      | Inr (Entries xs) \<Rightarrow> Inr (fst (removeClick i xs st)))"
| "store_step Clear st = Inr (fst (clearClick st))"

fun store_run :: "store_event list \<Rightarrow> storage \<Rightarrow> error + storage" where
  "store_run [] st = Inr st"
| "store_run (e # es) st =
     (case store_step e st of Inl x \<Rightarrow> Inl x | Inr st' \<Rightarrow> store_run es st')"

section \<open>Regular expressions match their language\<close>

lemma nullable_lang: "nullable r \<longleftrightarrow> [] \<in> lang r"
  by (induction r) (auto simp: conc_def intro: star.intros)

lemma star_cons:
  "c # w \<in> star A \<longleftrightarrow> (\<exists>u v. w = u @ v \<and> c # u \<in> A \<and> v \<in> star A)"
proof
  assume "c # w \<in> star A"
  then show "\<exists>u v. w = u @ v \<and> c # u \<in> A \<and> v \<in> star A"
  proof (induction "c # w" rule: star.induct)
    case (star_app u v)
    then show ?case by (cases u) auto
  qed
next
  assume "\<exists>u v. w = u @ v \<and> c # u \<in> A \<and> v \<in> star A"
  then obtain u v where "w = u @ v" "c # u \<in> A" "v \<in> star A" by blast
  then show "c # w \<in> star A" using star.star_app [of "c # u" A v] by simp
qed

lemma deriv_lang: "w \<in> lang (deriv c r) \<longleftrightarrow> c # w \<in> lang r"
proof (induction r arbitrary: w)
  case (Seq r s)
  then show ?case
    by (auto simp: conc_def nullable_lang Cons_eq_append_conv)
next
  case (Star r)
  then show ?case by (auto simp: conc_def star_cons)
qed (auto simp: conc_def)

lemma regex_test_lang: "regex_test r w \<longleftrightarrow> w \<in> lang r"
  by (induction w arbitrary: r) (auto simp: nullable_lang deriv_lang)

lemma star_atoms: "w \<in> star {[c] | c. P c} \<longleftrightarrow> list_all P w"
proof
  assume "w \<in> star {[c] | c. P c}"
  then show "list_all P w" by (induction rule: star.induct) auto
next
  assume "list_all P w"
  then show "w \<in> star {[c] | c. P c}"
  proof (induction w)
    case Nil
    show ?case by (rule star.star_Nil)
  next
    case (Cons a w)
    then have "[a] \<in> {[c] | c. P c}" "w \<in> star {[c] | c. P c}" by auto
    then have "[a] @ w \<in> star {[c] | c. P c}" by (rule star.star_app)
    then show ?case by simp
  qed
qed

lemma conc_atom: "a # v \<in> conc {[c] | c. P c} B \<longleftrightarrow> P a \<and> v \<in> B"
proof
  assume "a # v \<in> conc {[c] | c. P c} B"
  then show "P a \<and> v \<in> B" by (auto simp: conc_def)
next
  assume "P a \<and> v \<in> B"
  then have "[a] \<in> {[c] | c. P c}" "v \<in> B" by auto
  then have "[a] @ v \<in> conc {[c] | c. P c} B" unfolding conc_def by blast
  then show "a # v \<in> conc {[c] | c. P c} B" by simp
qed

lemma lang_Plus_NonSpace: "w \<in> lang (Plus (Atom NonSpace)) \<longleftrightarrow> non_spaces w"
proof (cases w)
  case Nil
  then show ?thesis by (simp add: Plus_def conc_def non_spaces_def)
next
  case (Cons a v)
  have "a # v \<in> lang (Plus (Atom NonSpace)) \<longleftrightarrow> \<not> is_space a \<and> list_all (\<lambda>c. \<not> is_space c) v"
    by (simp add: Plus_def conc_atom star_atoms)
  with Cons show ?thesis by (simp add: non_spaces_def)
qed

lemma lang_email_re: "e \<in> lang email_re \<longleftrightarrow> email_shape e"
proof -
  have "e \<in> lang email_re \<longleftrightarrow>
    (\<exists>a r1. e = a @ r1 \<and> non_spaces a \<and>
      (\<exists>r2. r1 = cu CHR ''@'' # r2 \<and>
        (\<exists>b r3. r2 = b @ r3 \<and> non_spaces b \<and>
          (\<exists>c. r3 = cu CHR ''.'' # c \<and> non_spaces c))))"
    unfolding email_re_def lang.simps(5) conc_def mem_Collect_eq lang_Plus_NonSpace
    by (auto simp: conc_def)
  also have "\<dots> \<longleftrightarrow> email_shape e"
    unfolding email_shape_def by blast
  finally show ?thesis .
qed

lemma regex_test_email: "regex_test email_re e \<longleftrightarrow> email_shape e"
  by (simp add: regex_test_lang lang_email_re)

lemma not_email_shape_Nil: "\<not> email_shape []"
  by (simp add: email_shape_def)

section \<open>Parsing what was serialized\<close>

subsection \<open>Digits\<close>

lemma digit_cases:
  "0 \<le> d \<Longrightarrow> d < 10 \<Longrightarrow> d = 0 \<or> d = 1 \<or> d = 2 \<or> d = 3 \<or> d = 4 \<or> d = 5 \<or> d = 6 \<or> d = 7 \<or> d = 8 \<or> d = (9::int)"
  by arith

lemma is_digit_of_int: "0 \<le> d \<Longrightarrow> d < 10 \<Longrightarrow> is_digit (digit_char d)"
  using digit_cases [of d] by (auto simp: is_digit_def digit_char_def)

lemma digit_val_of_int: "0 \<le> d \<Longrightarrow> d < 10 \<Longrightarrow> digit_val (digit_char d) = d"
  using digit_cases [of d] by (auto simp: digit_val_def digit_char_def)

lemma digit_zero_iff: "0 \<le> d \<Longrightarrow> d < 10 \<Longrightarrow> digit_char d = 0x30 \<longleftrightarrow> d = 0"
  using digit_cases [of d] by (auto simp: digit_char_def)

lemma digits_not_Nil: "digits n \<noteq> []"
  by (subst digits.simps) simp

lemma digits_all_digit: "0 \<le> n \<Longrightarrow> list_all is_digit (digits n)"
proof (induction n rule: digits.induct)
  case (1 n)
  show ?case
  proof (cases "n < 10")
    case True
    with "1.prems" show ?thesis by (subst digits.simps) (simp add: is_digit_of_int)
  next
    case False
    then have "list_all is_digit (digits (n div 10))" using "1.IH" by simp
    moreover have "is_digit (digit_char (n mod 10))" by (rule is_digit_of_int) simp_all
    ultimately show ?thesis using False by (subst digits.simps) simp
  qed
qed

lemma read_digits_snoc: "read_digits (ds @ [d]) = 10 * read_digits ds + digit_val d"
  by (simp add: read_digits_def)

lemma read_digits_digits: "0 \<le> n \<Longrightarrow> read_digits (digits n) = n"
proof (induction n rule: digits.induct)
  case (1 n)
  show ?case
  proof (cases "n < 10")
    case True
    with "1.prems" show ?thesis
      by (subst digits.simps) (simp add: read_digits_def digit_val_of_int)
  next
    case False
    then have "read_digits (digits (n div 10)) = n div 10" using "1.IH" by simp
    moreover have "digit_val (digit_char (n mod 10)) = n mod 10"
      by (rule digit_val_of_int) simp_all
    ultimately show ?thesis using False
      by (subst digits.simps) (simp add: read_digits_snoc)
  qed
qed

lemma hd_digits_nonzero: "1 \<le> n \<Longrightarrow> hd (digits n) \<noteq> 0x30"
proof (induction n rule: digits.induct)
  case (1 n)
  show ?case
  proof (cases "n < 10")
    case True
    with "1.prems" show ?thesis
      by (subst digits.simps) (simp add: digit_zero_iff)
  next
    case False
    then have "hd (digits (n div 10)) \<noteq> 0x30" using "1.IH" by simp
    then show ?thesis using False digits_not_Nil [of "n div 10"]
      by (subst digits.simps) simp
  qed
qed

lemma digits_single: "0 \<le> n \<Longrightarrow> n < 10 \<Longrightarrow> digits n = [digit_char n]"
  by (subst digits.simps) simp

lemma digits_leading: "0 \<le> n \<Longrightarrow> hd (digits n) = 0x30 \<Longrightarrow> tl (digits n) = []"
proof (cases "n = 0")
  case True
  then show ?thesis by (simp add: digits_single)
next
  case False
  assume "0 \<le> n" "hd (digits n) = 0x30"
  with False hd_digits_nonzero [of n] show ?thesis by simp
qed

lemma delim_not_digit: "delim (c # cs) \<Longrightarrow> \<not> is_digit c"
  by (auto simp: delim_def is_digit_def cu_def)

lemma takeWhile_digits:
  assumes "0 \<le> n" "delim rest"
  shows "takeWhile is_digit (digits n @ rest) = digits n"
    and "dropWhile is_digit (digits n @ rest) = rest"
proof -
  have a: "\<forall>c\<in>set (digits n). is_digit c"
    using digits_all_digit [OF assms(1)] by (simp add: list_all_iff)
  have b: "takeWhile is_digit rest = []" "dropWhile is_digit rest = rest"
    using assms(2) delim_not_digit by (cases rest; auto)+
  show "takeWhile is_digit (digits n @ rest) = digits n"
    using a b by (simp add: takeWhile_append2)
  show "dropWhile is_digit (digits n @ rest) = rest"
    using a b by (simp add: dropWhile_append2)
qed

lemma parse_digits_digits:
  assumes "0 \<le> n" "delim rest"
  shows "parse_digits (digits n @ rest) = Inr (n, rest)"
proof -
  have "rest \<noteq> [] \<Longrightarrow> hd rest \<notin> {cu CHR ''.'', cu CHR ''e'', cu CHR ''E''}"
    using assms(2) by (cases rest) (auto simp: delim_def cu_def)
  then show ?thesis
    using assms digits_leading [of n]
    by (auto simp: cu_def parse_digits_def takeWhile_digits digits_not_Nil read_digits_digits Let_def)
qed

lemma hd_digits_is_digit: "0 \<le> n \<Longrightarrow> is_digit (hd (digits n))"
  using digits_all_digit [of n] digits_not_Nil [of n] by (cases "digits n") auto

lemma parse_number_show_int:
  assumes "delim rest"
  shows "parse_number (show_int n @ rest) = Inr (JNum n, rest)"
proof (cases "n < 0")
  case True
  then show ?thesis
    using parse_digits_digits [of "- n" rest] assms
    by (simp add: parse_number_def show_int_def)
next
  case False
  then have n: "0 \<le> n" by simp
  obtain c cs where d: "digits n = c # cs" using digits_not_Nil [of n] by (cases "digits n") auto
  with hd_digits_is_digit [OF n] have "c \<noteq> cu CHR ''-''" by (auto simp: is_digit_def cu_def)
  with d parse_digits_digits [OF n assms] False show ?thesis
    by (simp add: parse_number_def show_int_def)
qed

subsection \<open>String literals\<close>

lemma hex4_sum:
  fixes u :: int
  assumes "0 \<le> u" "u < 65536"
  shows "4096 * (u div 4096 mod 16) + 256 * (u div 256 mod 16) + 16 * (u div 16 mod 16) + u mod 16 = u"
proof -
  have a: "u div 4096 mod 16 = u div 4096" using assms by simp
  have e: "u div 4096 = u div 256 div 16" "u div 256 = u div 16 div 16"
    using zdiv_zmult2_eq [of 16 u 256] zdiv_zmult2_eq [of 16 u 16] by simp_all
  have b: "u div 256 = 16 * (u div 4096) + u div 256 mod 16"
    unfolding e(1) by simp
  have c: "u div 16 = 16 * (u div 256) + u div 16 mod 16"
    unfolding e(2) by simp
  have d: "u = 16 * (u div 16) + u mod 16" by simp
  show ?thesis using a b c d by linarith
qed

lemma uint_word_of_small:
  "0 \<le> k \<Longrightarrow> k < 65536 \<Longrightarrow> uint (word_of_int k :: code_unit) = k"
  by (simp add: uint_word_of_int take_bit_int_eq_self)

lemma hex_val_hex_digit: 
  assumes "0 \<le> d" "d < 16" 
  shows "hex_val (hex_digit d) = Some d"
proof (cases "d < 10")
  case True
  define w :: code_unit where "w = word_of_int (48 + d)"
  have "uint w = 48 + d" unfolding w_def using assms by (intro uint_word_of_small) simp_all
  then have "hex_val w = Some d" using assms True
    by (simp add: hex_val_def word_le_def)
  then show ?thesis using True by (simp add: hex_digit_def w_def)
next
  case False
  define w :: code_unit where "w = word_of_int (87 + d)"
  have "uint w = 87 + d" unfolding w_def using assms by (intro uint_word_of_small) simp_all
  then have "hex_val w = Some d" using assms False
    by (simp add: hex_val_def word_le_def)
  then show ?thesis using False by (simp add: hex_digit_def w_def)
qed

lemma hex4_val_escape:
  "hex4_val (hex_digit (uint c div 4096 mod 16)) (hex_digit (uint c div 256 mod 16))
     (hex_digit (uint c div 16 mod 16)) (hex_digit (uint c mod 16)) = Some c"
proof -
  have u: "0 \<le> uint c" "uint c < 65536"
    using uint_lt2p [of c] by simp_all
  have h1: "hex_val (hex_digit (uint c div 4096 mod 16)) = Some (uint c div 4096 mod 16)"
    by (rule hex_val_hex_digit) simp_all
  have h2: "hex_val (hex_digit (uint c div 256 mod 16)) = Some (uint c div 256 mod 16)"
    by (rule hex_val_hex_digit) simp_all
  have h3: "hex_val (hex_digit (uint c div 16 mod 16)) = Some (uint c div 16 mod 16)"
    by (rule hex_val_hex_digit) simp_all
  have h4: "hex_val (hex_digit (uint c mod 16)) = Some (uint c mod 16)"
    by (rule hex_val_hex_digit) simp_all
  have "hex4_val (hex_digit (uint c div 4096 mod 16)) (hex_digit (uint c div 256 mod 16))
     (hex_digit (uint c div 16 mod 16)) (hex_digit (uint c mod 16)) 
     = Some (word_of_int (4096 * (uint c div 4096 mod 16) + 256 * (uint c div 256 mod 16) + 16 * (uint c div 16 mod 16) + uint c mod 16))"
    unfolding hex4_val_def h1 h2 h3 h4 by (simp only: prod.case option.case)
  also have "\<dots> = Some (word_of_int (uint c))"
    by (simp only: hex4_sum [OF u])
  finally show ?thesis by simp
qed

lemma parse_chars_escape_u: "parse_chars (escape_u c @ r) = cons_result c (parse_chars r)"
  by (simp add: escape_u_def cu_def hex4_val_escape cons_result_def)

lemma parse_chars_short:
  "parse_chars (0x5C # 0x22 # r) = cons_result 0x22 (parse_chars r)"
  "parse_chars (0x5C # 0x5C # r) = cons_result 0x5C (parse_chars r)"
  "parse_chars (0x5C # cu CHR ''b'' # r) = cons_result 0x08 (parse_chars r)"
  "parse_chars (0x5C # cu CHR ''f'' # r) = cons_result 0x0C (parse_chars r)"
  "parse_chars (0x5C # cu CHR ''n'' # r) = cons_result 0x0A (parse_chars r)"
  "parse_chars (0x5C # cu CHR ''r'' # r) = cons_result 0x0D (parse_chars r)"
  "parse_chars (0x5C # cu CHR ''t'' # r) = cons_result 0x09 (parse_chars r)"
  by (simp_all add: cu_def unescape_def cons_result_def)

lemma parse_chars_raw:
  "c \<noteq> 0x22 \<Longrightarrow> c \<noteq> 0x5C \<Longrightarrow> \<not> c < 0x20 \<Longrightarrow>
   parse_chars (c # r) = cons_result c (parse_chars r)"
  by (simp add: cons_result_def)

lemma surrogate_not_small:
  "is_high_surrogate c \<Longrightarrow> c \<noteq> 0x22 \<and> c \<noteq> 0x5C \<and> \<not> c < 0x20"
  "is_low_surrogate c \<Longrightarrow> c \<noteq> 0x22 \<and> c \<noteq> 0x5C \<and> \<not> c < 0x20"
  by (auto simp: is_high_surrogate_def is_low_surrogate_def word_le_def word_less_def)

lemma parse_chars_close: "parse_chars (0x22 # rest) = Some ([], rest)"
  by simp

lemma parse_chars_quote_chars: "parse_chars (quote_chars s @ 0x22 # rest) = Some (s, rest)"
proof (induction s rule: length_induct)
  case (1 s)
  note parse_chars.simps [simp del]
  show ?case
  proof (cases s)
    case Nil
    then show ?thesis by (simp add: parse_chars_close)
  next
    case (Cons c cs)
    have cs: "parse_chars (quote_chars cs @ 0x22 # rest) = Some (cs, rest)"
      using "1.IH" Cons by simp
    show ?thesis
    proof (cases "c = 0x22 \<or> c = 0x5C \<or> c = 0x08 \<or> c = 0x0C \<or> c = 0x0A \<or> c = 0x0D \<or> c = 0x09")
      case True
      then show ?thesis using cs Cons
        by (auto simp: parse_chars_short cons_result_def)
    next
      case special: False
      show ?thesis
      proof (cases "c < 0x20")
        case True
        then show ?thesis using cs Cons special
          by (simp add: parse_chars_escape_u cons_result_def)
      next
        case big: False
        show ?thesis
        proof (cases "is_high_surrogate c")
          case high: True
          show ?thesis
          proof (cases cs)
            case Nil
            then show ?thesis using Cons special big high
              by (simp add: parse_chars_escape_u parse_chars_close cons_result_def)
          next
            case (Cons d ds)
            have ds: "parse_chars (quote_chars ds @ 0x22 # rest) = Some (ds, rest)"
              using "1.IH" Cons \<open>s = c # cs\<close> by simp
            show ?thesis
            proof (cases "is_low_surrogate d")
              case True
              then show ?thesis
                using Cons \<open>s = c # cs\<close> special big high ds
                  surrogate_not_small(1) [OF high] surrogate_not_small(2) [OF True]
                by (simp add: parse_chars_raw cons_result_def)
            next
              case False
              then show ?thesis
                using Cons \<open>s = c # cs\<close> special big high cs
                by (simp add: parse_chars_escape_u cons_result_def)
            qed
          qed
        next
          case nothigh: False
          show ?thesis
          proof (cases "is_low_surrogate c")
            case True
            then show ?thesis using cs Cons special big nothigh
              by (simp add: parse_chars_escape_u cons_result_def)
          next
            case False
            then show ?thesis using cs Cons special big nothigh
              by (simp add: parse_chars_raw cons_result_def)
          qed
        qed
      qed
    qed
  qed
qed

subsection \<open>Values\<close>

lemma digit_char_start: "is_digit c \<Longrightarrow> value_start c"
  by (auto simp: is_digit_def value_start_def is_json_ws_def cu_def)

lemma show_int_start: "\<exists>c cs. show_int n = c # cs \<and> value_start c \<and> (c = cu CHR ''-'' \<or> is_digit c)"
proof (cases "n < 0")
  case True
  then show ?thesis by (simp add: show_int_def value_start_def is_json_ws_def cu_def)
next
  case False
  then have n: "0 \<le> n" by simp
  obtain c cs where d: "digits n = c # cs" using digits_not_Nil [of n] by (cases "digits n") auto
  with hd_digits_is_digit [OF n] have "is_digit c" by simp
  with d False show ?thesis by (simp add: show_int_def digit_char_start)
qed

lemma stringify_start: "\<exists>c cs. JSON_stringify v = c # cs \<and> value_start c"
proof (cases v)
  case (JNum n)
  then show ?thesis using show_int_start [of n] by auto
qed (auto simp: value_start_def is_json_ws_def cu_def str_def quote_def)

lemma skip_ws_start: "value_start c \<Longrightarrow> skip_ws (c # cs) = c # cs"
  by (simp add: skip_ws_def value_start_def)

lemma skip_ws_delims [simp]:
  "skip_ws (cu CHR '','' # cs) = cu CHR '','' # cs"
  "skip_ws (cu CHR '']'' # cs) = cu CHR '']'' # cs"
  "skip_ws (cu CHR ''}'' # cs) = cu CHR ''}'' # cs"
  "skip_ws (cu CHR '':'' # cs) = cu CHR '':'' # cs"
  "skip_ws (0x22 # cs) = 0x22 # cs"
  by (simp_all add: skip_ws_def is_json_ws_def cu_def)

lemma skip_ws_stringify: "skip_ws (JSON_stringify v @ r) = JSON_stringify v @ r"
  using stringify_start [of v] by (auto simp: skip_ws_start)
lemma parse_value_null:
  "parse_value (Suc n) (JSON_stringify JNull @ rest) = Inr (JNull, rest)"
  by (simp add: str_def cu_def parse_literal_def)

lemma parse_value_bool:
  "parse_value (Suc n) (JSON_stringify (JBool b) @ rest) = Inr (JBool b, rest)"
  by (simp add: str_def cu_def parse_literal_def)

lemma parse_value_str:
  "parse_value (Suc n) (JSON_stringify (JStr s) @ rest) = Inr (JStr s, rest)"
  by (simp add: quote_def cu_def parse_chars_quote_chars)

lemma parse_value_num:
  assumes "delim rest"
  shows "parse_value (Suc n) (JSON_stringify (JNum k) @ rest) = Inr (JNum k, rest)"
proof -
  obtain c cs where s: "show_int k = c # cs" and c: "c = cu CHR ''-'' \<or> is_digit c"
    using show_int_start [of k] by blast
  have "parse_value (Suc n) ((c # cs) @ rest) = parse_number ((c # cs) @ rest)"
    using c by (auto simp: is_digit_def cu_def)
  then show ?thesis using s parse_number_show_int [OF assms, of k] by simp
qed

lemma join_Cons2: "xs \<noteq> [] \<Longrightarrow> join (x # xs) = x @ cu CHR '','' # join xs"
  by (cases xs) simp_all

lemma join_start:
  assumes "vs \<noteq> []"
  shows "\<exists>c cs. join (map JSON_stringify vs) = c # cs \<and> value_start c"
proof -
  obtain v vs' where vs: "vs = v # vs'" using assms by (cases vs) auto
  obtain c cs where "JSON_stringify v = c # cs" "value_start c"
    using stringify_start [of v] by blast
  then show ?thesis using vs by (cases vs') auto
qed

lemma delim_simps [simp]:
  "delim []" "delim (cu CHR '','' # cs)" "delim (cu CHR '']'' # cs)" "delim (cu CHR ''}'' # cs)"
  by (simp_all add: delim_def)

lemmas skip_ws_delims_num [simp] = skip_ws_delims [unfolded cu_def, simplified]

lemmas delim_simps_num [simp] = delim_simps(2-4) [unfolded cu_def, simplified]

lemma parse_items_ok:
  assumes "\<forall>v\<in>set vs. value_ok v" "vs \<noteq> []"
    and "Suc (length (join (map JSON_stringify vs))) \<le> n"
  shows "parse_items n (join (map JSON_stringify vs) @ cu CHR '']'' # rest) = Inr (vs, rest)"
  using assms
proof (induction vs arbitrary: n)
  case Nil
  then show ?case by simp
next
  case (Cons v vs)
  obtain m where n: "n = Suc m" using Cons.prems(3) by (cases n) auto
  have v: "value_ok v" using Cons.prems(1) by simp
  show ?case
  proof (cases "vs = []")
    case True
    have "parse_value m (JSON_stringify v @ cu CHR '']'' # rest) = Inr (v, cu CHR '']'' # rest)"
      using v Cons.prems(3) n True by (simp add: value_ok_def)
    then show ?thesis using True n by (simp add: cu_def)
  next
    case False
    let ?tail = "join (map JSON_stringify vs) @ cu CHR '']'' # rest"
    have len: "length (join (map JSON_stringify (v # vs))) =
        length (JSON_stringify v) + Suc (length (join (map JSON_stringify vs)))"
      using False by (simp add: join_Cons2)
    have "parse_value m (JSON_stringify v @ cu CHR '','' # ?tail) = Inr (v, cu CHR '','' # ?tail)"
      using v Cons.prems(3) n len by (simp add: value_ok_def)
    moreover have "skip_ws ?tail = ?tail"
      using join_start [OF False] by (auto simp: skip_ws_start)
    moreover have "parse_items m ?tail = Inr (vs, rest)"
      using Cons.IH [of m] Cons.prems(1,3) False n len by simp
    ultimately show ?thesis using False n by (simp add: join_Cons2)
  qed
qed

lemma stringify_obj: 
  "JSON_stringify (JObj kvs) = cu CHR ''{'' # join (map member_text kvs) @ [cu CHR ''}'']"
  by (simp add: member_text_def)

lemma member_text_eq: "member_text (k, v) = 0x22 # quote_chars k @ 0x22 # cu CHR '':'' # JSON_stringify v"
  by (simp add: member_text_def quote_def)

lemma parse_members_ok:
  assumes "\<forall>(k, v)\<in>set kvs. value_ok v" "kvs \<noteq> []"
    and "Suc (length (join (map member_text kvs))) \<le> n"
  shows "parse_members n (join (map member_text kvs) @ cu CHR ''}'' # rest) = Inr (kvs, rest)"
  using assms
proof (induction kvs arbitrary: n)
  case Nil
  then show ?case by simp
next
  case (Cons kv kvs)
  obtain k v where kv: "kv = (k, v)" by (cases kv)
  obtain m where n: "n = Suc m" using Cons.prems(3) by (cases n) auto
  have v: "value_ok v" using Cons.prems(1) kv by simp
  show ?case
  proof (cases "kvs = []")
    case True
    have "parse_value m (JSON_stringify v @ cu CHR ''}'' # rest) = Inr (v, cu CHR ''}'' # rest)"
      using v Cons.prems(3) n True kv by (simp add: value_ok_def member_text_eq)
    then show ?thesis using True n kv 
      by (simp add: member_text_eq parse_chars_quote_chars skip_ws_stringify cu_def)
  next
    case False
    let ?tail = "join (map member_text kvs) @ cu CHR ''}'' # rest"
    have len: "length (join (map member_text (kv # kvs))) =
        length (member_text kv) + Suc (length (join (map member_text kvs)))"
      using False by (simp add: join_Cons2)
    have "parse_value m (JSON_stringify v @ cu CHR '','' # ?tail) = Inr (v, cu CHR '','' # ?tail)"
      using v Cons.prems(3) n len kv by (simp add: value_ok_def member_text_eq)
    moreover have "skip_ws ?tail = ?tail"
    proof -
      obtain kv' kvs' where "kvs = kv' # kvs'" using False by (cases kvs) auto
      then show ?thesis by (cases kv'; cases kvs') (simp_all add: member_text_eq)
    qed
    moreover have "parse_members m ?tail = Inr (kvs, rest)"
      using Cons.IH [of m] Cons.prems(1,3) False n len by simp
    ultimately show ?thesis using False n kv
      by (simp add: join_Cons2 member_text_eq parse_chars_quote_chars skip_ws_stringify cu_def)
  qed
qed

lemma obj_set_fresh: "k \<notin> fst ` set kvs \<Longrightarrow> obj_set k v kvs = kvs @ [(k, v)]"
  by (induction kvs) auto

lemma foldl_obj_set_distinct:
  "distinct (map fst (acc @ ms)) \<Longrightarrow>
   foldl (\<lambda>kvs (k, v). obj_set k v kvs) acc ms = acc @ ms"
proof (induction ms arbitrary: acc)
  case Nil
  then show ?case by simp
next
  case (Cons m ms)
  obtain k v where m: "m = (k, v)" by (cases m)
  have "obj_set k v acc = acc @ [(k, v)]"
    using Cons.prems m by (intro obj_set_fresh) auto
  moreover have "distinct (map fst ((acc @ [(k, v)]) @ ms))" using Cons.prems m by simp
  ultimately show ?case using Cons.IH [of "acc @ [(k, v)]"] m by simp
qed

lemma obj_of_members_distinct: "distinct (map fst ms) \<Longrightarrow> obj_of_members ms = ms"
  using foldl_obj_set_distinct [of "[]" ms] by (simp add: obj_of_members_def)

lemma value_ok_all: "wf_json v \<Longrightarrow> value_ok v"
proof (induction v)
  case JNull
  show ?case unfolding value_ok_def
  proof (intro allI impI)
    fix n rest assume "length (JSON_stringify JNull) \<le> n"
    then obtain m where "n = Suc m" by (cases n) (auto simp: str_def)
    then show "parse_value n (JSON_stringify JNull @ rest) = Inr (JNull, rest)"
      using parse_value_null by simp
  qed
next
  case (JBool b)
  show ?case unfolding value_ok_def
  proof (intro allI impI)
    fix n rest assume "length (JSON_stringify (JBool b)) \<le> n"
    then obtain m where "n = Suc m" by (cases n; cases b) (auto simp: str_def)
    then show "parse_value n (JSON_stringify (JBool b) @ rest) = Inr (JBool b, rest)"
      using parse_value_bool by simp
  qed
next
  case (JNum k)
  show ?case unfolding value_ok_def
  proof (intro allI impI)
    fix n rest assume "length (JSON_stringify (JNum k)) \<le> n" and d: "delim rest"
    then obtain m where "n = Suc m" using show_int_start [of k] by (cases n) auto
    then show "parse_value n (JSON_stringify (JNum k) @ rest) = Inr (JNum k, rest)"
      using parse_value_num [OF d] by simp
  qed
next
  case (JStr s)
  show ?case unfolding value_ok_def
  proof (intro allI impI)
    fix n rest assume "length (JSON_stringify (JStr s)) \<le> n"
    then obtain m where "n = Suc m" by (cases n) (auto simp: quote_def)
    then show "parse_value n (JSON_stringify (JStr s) @ rest) = Inr (JStr s, rest)"
      using parse_value_str by simp
  qed
next
  case (JArr vs)
  then have ok: "\<forall>v\<in>set vs. value_ok v" by (auto simp: list_all_iff)
  show ?case unfolding value_ok_def
  proof (intro allI impI)
    fix n rest assume len: "length (JSON_stringify (JArr vs)) \<le> n"
    then obtain m where n: "n = Suc m" by (cases n) auto
    show "parse_value n (JSON_stringify (JArr vs) @ rest) = Inr (JArr vs, rest)"
    proof (cases "vs = []")
      case True
      then show ?thesis using n by (simp add: cu_def)
    next
      case False
      obtain c cs where c: "join (map JSON_stringify vs) = c # cs" "value_start c"
        using join_start [OF False] by blast
      have "parse_items m ((c # cs) @ cu CHR '']'' # rest) = Inr (vs, rest)"
        using parse_items_ok [OF ok False, of m rest] len n c(1) by simp
      then show ?thesis using n c by (simp add: skip_ws_start value_start_def cu_def)
    qed
  qed
next
  case (JObj kvs)
  then have ok: "\<forall>(k, v)\<in>set kvs. value_ok v" by (fastforce simp: list_all_iff)
  from JObj.prems have dist: "distinct (map fst kvs)" by simp
  show ?case unfolding value_ok_def
  proof (intro allI impI)
    fix n rest assume len: "length (JSON_stringify (JObj kvs)) \<le> n"
    then obtain m where n: "n = Suc m" by (cases n) auto
    show "parse_value n (JSON_stringify (JObj kvs) @ rest) = Inr (JObj kvs, rest)"
    proof (cases "kvs = []")
      case True
      then show ?thesis using n by (simp add: cu_def)
    next
      case False
      obtain kv kvs' where kvs: "kvs = kv # kvs'" using False by (cases kvs) auto
      obtain cs where c: "join (map member_text kvs) = 0x22 # cs"
        using kvs by (cases kv; cases kvs') (simp_all add: member_text_eq)
      have "parse_members m ((0x22 # cs) @ cu CHR ''}'' # rest) = Inr (kvs, rest)"
        using parse_members_ok [OF ok False, of m rest] len n c unfolding stringify_obj by simp
      then show ?thesis using n c dist unfolding stringify_obj
        by (simp add: cu_def obj_of_members_distinct)
    qed
  qed
qed

lemma JSON_roundtrip: "wf_json v \<Longrightarrow> JSON_parse (JSON_stringify v) = Inr v"
proof -
  assume "wf_json v"
  then have "value_ok v" by (rule value_ok_all)
  then have "length (JSON_stringify v) \<le> Suc (2 * length (JSON_stringify v)) \<longrightarrow> delim [] \<longrightarrow>
      parse_value (Suc (2 * length (JSON_stringify v))) (JSON_stringify v @ []) = Inr (v, [])"
    unfolding value_ok_def by blast
  then have "parse_value (Suc (2 * length (JSON_stringify v))) (JSON_stringify v @ []) = Inr (v, [])"
    by simp
  then show ?thesis
    using skip_ws_stringify [of v "[]"] by (simp add: JSON_parse_def skip_ws_def)
qed

subsection \<open>The fuel is enough\<close>

lemma parse_chars_shorter: "parse_chars cs = Some (s, r) \<Longrightarrow> length r < length cs"
proof (induction cs arbitrary: s rule: length_induct)
  case (1 cs)
  show ?case
  proof (cases cs)
    case Nil
    with "1.prems" show ?thesis by simp
  next
    case (Cons c cs')
    have IH: "\<And>xs s'. length xs < length cs \<Longrightarrow> parse_chars xs = Some (s', r) \<Longrightarrow> length r < length xs"
      using "1.IH" by blast
    show ?thesis
    proof (cases "c = 0x22")
      case True
      with "1.prems" Cons show ?thesis by simp
    next
      case nq: False
      show ?thesis
      proof (cases "c = 0x5C")
        case False
        with nq "1.prems" Cons obtain s' where "parse_chars cs' = Some (s', r)"
          by (auto split: if_splits option.splits)
        with IH [of cs' s'] Cons show ?thesis by simp
      next
        case True
        show ?thesis
        proof (cases cs')
          case Nil
          with True "1.prems" Cons show ?thesis by simp
        next
          case e: (Cons e es)
          show ?thesis
          proof (cases "e = cu CHR ''u''")
            case False
            with True "1.prems" Cons e obtain s' where "parse_chars es = Some (s', r)"
              by (auto split: if_splits option.splits)
            with IH [of es s'] Cons e show ?thesis by simp
          next
            case u: True
            with True "1.prems" Cons e obtain h1 h2 h3 h4 r' s' where
              "es = h1 # h2 # h3 # h4 # r'" "parse_chars r' = Some (s', r)"
              by (auto split: if_splits option.splits list.splits)
            with IH [of r' s'] Cons e show ?thesis by simp
          qed
        qed
      qed
    qed
  qed
qed

lemma skip_ws_length: "length (skip_ws cs) \<le> length cs"
  by (simp add: skip_ws_def length_dropWhile_le)

lemma parse_digits_shorter: "parse_digits cs = Inr (n, r) \<Longrightarrow> length r < length cs"
proof -
  assume a: "parse_digits cs = Inr (n, r)"
  then have "takeWhile is_digit cs \<noteq> []" "r = dropWhile is_digit cs"
    by (auto simp: parse_digits_def Let_def split: if_splits)
  moreover have "length cs = length (takeWhile is_digit cs) + length (dropWhile is_digit cs)"
    by (metis length_append takeWhile_dropWhile_id)
  ultimately show ?thesis by (cases "takeWhile is_digit cs") auto
qed

lemma parse_number_shorter: "parse_number cs = Inr (v, r) \<Longrightarrow> length r < length cs"
  by (auto simp: parse_number_def split: list.splits if_splits sum.splits
      dest!: parse_digits_shorter)

lemma parse_literal_shorter:
  "w \<noteq> [] \<Longrightarrow> parse_literal w x cs = Inr (v, r) \<Longrightarrow> length r < length cs"
proof -
  assume w: "w \<noteq> []" and "parse_literal w x cs = Inr (v, r)"
  then have t: "take (length w) cs = w" and r: "r = drop (length w) cs"
    by (auto simp: parse_literal_def split: if_splits)
  have "length w \<le> length cs" using arg_cong [OF t, of length] by simp
  with w r show ?thesis by (cases w) auto
qed

lemma parse_digits_fuel: "parse_digits cs \<noteq> Inl OutOfFuel"
  by (simp add: parse_digits_def Let_def)

lemma parse_number_fuel: "parse_number cs \<noteq> Inl OutOfFuel"
  using parse_digits_fuel
  by (auto simp: parse_number_def split: list.splits sum.splits)

lemma parse_literal_fuel: "parse_literal w x cs \<noteq> Inl OutOfFuel"
  by (simp add: parse_literal_def)

lemma str_not_Nil: "str ''true'' \<noteq> []" "str ''false'' \<noteq> []" "str ''null'' \<noteq> []"
  by (simp_all add: str_def)

lemma parse_shorter:
  "(\<forall>cs v r. parse_value n cs = Inr (v, r) \<longrightarrow> length r < length cs)
   \<and> (\<forall>cs vs r. parse_items n cs = Inr (vs, r) \<longrightarrow> length r < length cs)
   \<and> (\<forall>cs ms r. parse_members n cs = Inr (ms, r) \<longrightarrow> length r < length cs)"
proof (induction n)
  case 0
  show ?case by simp
next
  case (Suc n)
  then have V: "\<And>cs v r. parse_value n cs = Inr (v, r) \<Longrightarrow> length r < length cs"
    and I: "\<And>cs vs r. parse_items n cs = Inr (vs, r) \<Longrightarrow> length r < length cs"
    and M: "\<And>cs ms r. parse_members n cs = Inr (ms, r) \<Longrightarrow> length r < length cs"
    by blast+
  have pv: "length r < length cs" if a: "parse_value (Suc n) cs = Inr (v, r)" for cs v r
  proof (cases cs)
    case Nil
    with a show ?thesis by simp
  next
    case (Cons c cs')
    consider (arr) "c = cu CHR ''[''" | (obj) "c \<noteq> cu CHR ''[''" "c = cu CHR ''{''"
      | (strg) "c \<noteq> cu CHR ''[''" "c \<noteq> cu CHR ''{''" "c = 0x22"
      | (lit) "c \<noteq> cu CHR ''[''" "c \<noteq> cu CHR ''{''" "c \<noteq> 0x22"
          "c = cu CHR ''t'' \<or> c = cu CHR ''f'' \<or> c = cu CHR ''n''"
      | (num) "c \<noteq> cu CHR ''[''" "c \<noteq> cu CHR ''{''" "c \<noteq> 0x22"
          "c \<noteq> cu CHR ''t''" "c \<noteq> cu CHR ''f''" "c \<noteq> cu CHR ''n''"
      by blast
    then show ?thesis
    proof cases
      case arr
      obtain d ds where d: "skip_ws cs' = d # ds"
        using a Cons arr by (cases "skip_ws cs'") auto
      have le: "length (d # ds) \<le> length cs'" using skip_ws_length [of cs'] d by simp
      show ?thesis
      proof (cases "d = cu CHR '']''")
        case True
        with a Cons arr d le show ?thesis by auto
      next
        case False
        with a Cons arr d obtain vs where "parse_items n (d # ds) = Inr (vs, r)"
          by (auto split: sum.splits)
        from I [OF this] le Cons show ?thesis by simp
      qed
    next
      case obj
      obtain d ds where d: "skip_ws cs' = d # ds"
        using a Cons obj by (cases "skip_ws cs'") auto
      have le: "length (d # ds) \<le> length cs'" using skip_ws_length [of cs'] d by simp
      show ?thesis
      proof (cases "d = cu CHR ''}''")
        case True
        with a Cons obj d le show ?thesis by auto
      next
        case False
        with a Cons obj d obtain ms where "parse_members n (d # ds) = Inr (ms, r)"
          by (auto split: sum.splits)
        from M [OF this] le Cons show ?thesis by simp
      qed
    next
      case strg
      with a Cons obtain s where "parse_chars cs' = Some (s, r)"
        by (auto split: option.splits)
      from parse_chars_shorter [OF this] Cons show ?thesis by simp
    next
      case lit
      with a Cons have "\<exists>w x. w \<noteq> [] \<and> parse_literal w x cs = Inr (v, r)"
        using str_not_Nil by (auto split: if_splits)
      then show ?thesis using parse_literal_shorter by blast
    next
      case num
      with a Cons have "parse_number cs = Inr (v, r)" by simp
      then show ?thesis by (rule parse_number_shorter)
    qed
  qed
  have pi: "length r < length cs" if a: "parse_items (Suc n) cs = Inr (vs, r)" for cs vs r
  proof -
    obtain v r1 where v: "parse_value n cs = Inr (v, r1)"
      using a by (auto split: sum.splits)
    obtain d ds where d: "skip_ws r1 = d # ds"
      using a v by (cases "skip_ws r1") auto
    have le: "length (d # ds) < length cs" using skip_ws_length [of r1] d V [OF v] by simp
    show ?thesis
    proof (cases "d = cu CHR '',''")
      case True
      with a v d obtain vs' where "parse_items n (skip_ws ds) = Inr (vs', r)"
        by (auto split: sum.splits)
      from I [OF this] skip_ws_length [of ds] le show ?thesis by simp
    next
      case False
      with a v d have "r = ds" by (auto split: if_splits)
      with le show ?thesis by simp
    qed
  qed
  have pm: "length r < length cs" if a: "parse_members (Suc n) cs = Inr (ms, r)" for cs ms r
  proof (cases cs)
    case Nil
    with a show ?thesis by simp
  next
    case (Cons c cs')
    with a have c: "c = 0x22" by (auto split: if_splits)
    obtain k r1 where k: "parse_chars cs' = Some (k, r1)"
      using a Cons c by (auto split: option.splits)
    obtain d ds where d: "skip_ws r1 = d # ds"
      using a Cons c k by (cases "skip_ws r1") auto
    have colon: "d = cu CHR '':''" using a Cons c k d by (auto split: if_splits)
    obtain v r2 where v: "parse_value n (skip_ws ds) = Inr (v, r2)"
      using a Cons c k d colon by (auto split: sum.splits)
    obtain d' ds' where d': "skip_ws r2 = d' # ds'"
      using a Cons c k d colon v by (cases "skip_ws r2") auto
    have "length (d # ds) \<le> length r1" using skip_ws_length [of r1] d by simp
    moreover have "length r1 < length cs'" using parse_chars_shorter [OF k] .
    moreover have "length r2 < length (skip_ws ds)" using V [OF v] .
    moreover have "length (skip_ws ds) \<le> length ds" by (rule skip_ws_length)
    moreover have "length (d' # ds') \<le> length r2" using skip_ws_length [of r2] d' by simp
    ultimately have le: "length (d' # ds') < length cs" using Cons by simp
    show ?thesis
    proof (cases "d' = cu CHR '',''")
      case True
      with a Cons c k d colon v d' obtain ms' where "parse_members n (skip_ws ds') = Inr (ms', r)"
        by (auto split: sum.splits)
      from M [OF this] skip_ws_length [of ds'] le show ?thesis by simp
    next
      case False
      with a Cons c k d colon v d' have "r = ds'" by (auto split: if_splits)
      with le show ?thesis by simp
    qed
  qed
  from pv pi pm show ?case by blast
qed

lemma parse_digits_error: "parse_digits cs = Inl e \<Longrightarrow> e = SyntaxError \<or> e = Unsupported"
  by (auto simp: parse_digits_def Let_def split: if_splits)

lemma parse_number_error: "parse_number cs = Inl e \<Longrightarrow> e = SyntaxError \<or> e = Unsupported"
  by (auto simp: parse_number_def split: list.splits sum.splits if_splits
      dest: parse_digits_error)

lemma parse_literal_error: "parse_literal w x cs = Inl e \<Longrightarrow> e = SyntaxError"
  by (auto simp: parse_literal_def split: if_splits)

lemma parse_errors:
  "(\<forall>cs e. 2 * length cs + 1 \<le> n \<longrightarrow> parse_value n cs = Inl e \<longrightarrow>
        e = SyntaxError \<or> e = Unsupported)
   \<and> (\<forall>cs e. 2 * length cs + 2 \<le> n \<longrightarrow> parse_items n cs = Inl e \<longrightarrow>
        e = SyntaxError \<or> e = Unsupported)
   \<and> (\<forall>cs e. 2 * length cs + 2 \<le> n \<longrightarrow> parse_members n cs = Inl e \<longrightarrow>
        e = SyntaxError \<or> e = Unsupported)"
proof (induction n)
  case 0
  show ?case by simp
next
  case (Suc n)
  then have V: "\<And>cs e. 2 * length cs + 1 \<le> n \<Longrightarrow> parse_value n cs = Inl e \<Longrightarrow>
        e = SyntaxError \<or> e = Unsupported"
    and I: "\<And>cs e. 2 * length cs + 2 \<le> n \<Longrightarrow> parse_items n cs = Inl e \<Longrightarrow>
        e = SyntaxError \<or> e = Unsupported"
    and M: "\<And>cs e. 2 * length cs + 2 \<le> n \<Longrightarrow> parse_members n cs = Inl e \<Longrightarrow>
        e = SyntaxError \<or> e = Unsupported"
    by blast+
  note shorter = parse_shorter [of n]
  have pv: "e = SyntaxError \<or> e = Unsupported"
    if f: "2 * length cs + 1 \<le> Suc n" and a: "parse_value (Suc n) cs = Inl e" for cs e
  proof (cases cs)
    case Nil
    with a show ?thesis by simp
  next
    case (Cons c cs')
    consider (arr) "c = cu CHR ''[''" | (obj) "c \<noteq> cu CHR ''[''" "c = cu CHR ''{''"
      | (strg) "c \<noteq> cu CHR ''[''" "c \<noteq> cu CHR ''{''" "c = 0x22"
      | (lit) "c \<noteq> cu CHR ''[''" "c \<noteq> cu CHR ''{''" "c \<noteq> 0x22"
          "c = cu CHR ''t'' \<or> c = cu CHR ''f'' \<or> c = cu CHR ''n''"
      | (num) "c \<noteq> cu CHR ''[''" "c \<noteq> cu CHR ''{''" "c \<noteq> 0x22"
          "c \<noteq> cu CHR ''t''" "c \<noteq> cu CHR ''f''" "c \<noteq> cu CHR ''n''"
      by blast
    then show ?thesis
    proof cases
      case arr
      show ?thesis
      proof (cases "skip_ws cs'")
        case Nil
        with a Cons arr show ?thesis by simp
      next
        case d: (Cons d ds)
        have "2 * length (d # ds) + 2 \<le> n"
          using skip_ws_length [of cs'] d f Cons by simp
        from I [OF this] a Cons arr d show ?thesis
          by (auto split: if_splits sum.splits)
      qed
    next
      case obj
      show ?thesis
      proof (cases "skip_ws cs'")
        case Nil
        with a Cons obj show ?thesis by simp
      next
        case d: (Cons d ds)
        have "2 * length (d # ds) + 2 \<le> n"
          using skip_ws_length [of cs'] d f Cons by simp
        from M [OF this] a Cons obj d show ?thesis
          by (auto split: if_splits sum.splits)
      qed
    next
      case strg
      with a Cons show ?thesis by (auto split: option.splits)
    next
      case lit
      with a Cons show ?thesis by (auto split: if_splits dest: parse_literal_error)
    next
      case num
      with a Cons have "parse_number cs = Inl e" by simp
      then show ?thesis by (rule parse_number_error)
    qed
  qed
  have pi: "e = SyntaxError \<or> e = Unsupported"
    if f: "2 * length cs + 2 \<le> Suc n" and a: "parse_items (Suc n) cs = Inl e" for cs e
  proof (cases "parse_value n cs")
    case (Inl e')
    with a have "e' = e" by simp
    with Inl V [of cs e] f show ?thesis by simp
  next
    case (Inr vr)
    obtain v r1 where vr: "vr = (v, r1)" by (cases vr)
    have r1: "length r1 < length cs" using shorter Inr vr by blast
    show ?thesis
    proof (cases "skip_ws r1")
      case Nil
      with a Inr vr show ?thesis by simp
    next
      case (Cons d ds)
      have "length (skip_ws ds) \<le> length ds" by (rule skip_ws_length)
      moreover have "length (d # ds) \<le> length r1" using skip_ws_length [of r1] Cons by simp
      ultimately have "2 * length (skip_ws ds) + 2 \<le> n" using r1 f by simp
      from I [OF this] a Inr vr Cons show ?thesis
        by (auto split: if_splits sum.splits)
    qed
  qed
  have pm: "e = SyntaxError \<or> e = Unsupported"
    if f: "2 * length cs + 2 \<le> Suc n" and a: "parse_members (Suc n) cs = Inl e" for cs e
  proof (cases cs)
    case Nil
    with a show ?thesis by simp
  next
    case (Cons c cs')
    show ?thesis
    proof (cases "c = 0x22")
      case False
      with a Cons show ?thesis by simp
    next
      case c: True
      show ?thesis
      proof (cases "parse_chars cs'")
        case None
        with a Cons c show ?thesis by simp
      next
        case (Some kr)
        obtain k r1 where kr: "kr = (k, r1)" by (cases kr)
        have r1: "length r1 < length cs'" using parse_chars_shorter Some kr by blast
        show ?thesis
        proof (cases "skip_ws r1")
          case Nil
          with a Cons c Some kr show ?thesis by simp
        next
          case d: (Cons d ds)
          have ds: "length (d # ds) \<le> length r1" using skip_ws_length [of r1] d by simp
          show ?thesis
          proof (cases "d = cu CHR '':''")
            case False
            with a Cons c Some kr d show ?thesis by simp
          next
            case colon: True
            have sds: "length (skip_ws ds) \<le> length ds" by (rule skip_ws_length)
            show ?thesis
            proof (cases "parse_value n (skip_ws ds)")
              case (Inl e')
              with a Cons c Some kr d colon have "e' = e" by simp
              moreover have "2 * length (skip_ws ds) + 1 \<le> n"
                using sds ds r1 f Cons by simp
              ultimately show ?thesis using V [of "skip_ws ds" e] Inl by simp
            next
              case (Inr vr)
              obtain v r2 where vr: "vr = (v, r2)" by (cases vr)
              have r2: "length r2 < length (skip_ws ds)" using shorter Inr vr by blast
              show ?thesis
              proof (cases "skip_ws r2")
                case Nil
                with a Cons c Some kr d colon Inr vr show ?thesis by simp
              next
                case d': (Cons d' ds')
                have "length (d' # ds') \<le> length r2" using skip_ws_length [of r2] d' by simp
                moreover have "length (skip_ws ds') \<le> length ds'" by (rule skip_ws_length)
                ultimately have "2 * length (skip_ws ds') + 2 \<le> n"
                  using r2 sds ds r1 f Cons by simp
                from M [OF this] a Cons c Some kr d colon Inr vr d' show ?thesis
                  by (auto split: if_splits sum.splits)
              qed
            qed
          qed
        qed
      qed
    qed
  qed
  from pv pi pm show ?case by blast
qed

lemma JSON_parse_error: "JSON_parse s = Inl e \<Longrightarrow> e = SyntaxError \<or> e = Unsupported"
proof -
  assume a: "JSON_parse s = Inl e"
  have f: "2 * length (skip_ws s) + 1 \<le> Suc (2 * length s)"
    using skip_ws_length [of s] by simp
  show ?thesis
  proof (cases "parse_value (Suc (2 * length s)) (skip_ws s)")
    case (Inl e')
    with a have "e' = e" by (simp add: JSON_parse_def)
    with Inl f parse_errors [of "Suc (2 * length s)"] show ?thesis by blast
  next
    case (Inr vr)
    with a show ?thesis by (auto simp: JSON_parse_def split: if_splits prod.splits)
  qed
qed

section \<open>Facts about the model\<close>

subsection \<open>findIndex\<close>

lemma findIndex_bounds: "- 1 \<le> findIndex p xs \<and> findIndex p xs < int (length xs)"
  by (induction xs) (auto simp: Let_def)

lemma findIndex_none: "findIndex p xs = - 1 \<longleftrightarrow> (\<forall>x\<in>set xs. \<not> p x)"
proof (induction xs)
  case Nil
  show ?case by simp
next
  case (Cons x xs)
  have "- 1 \<le> findIndex p xs" using findIndex_bounds [of p xs] by simp
  with Cons show ?case by (auto simp: Let_def)
qed

lemma findIndex_found:
  "findIndex p xs \<noteq> - 1 \<Longrightarrow> p (xs ! nat (findIndex p xs))"
proof (induction xs)
  case Nil
  then show ?case by simp
next
  case (Cons x xs)
  show ?case
  proof (cases "p x")
    case True
    then show ?thesis by simp
  next
    case False
    with Cons.prems have ne: "findIndex p xs \<noteq> - 1" by (auto simp: Let_def)
    then have "0 \<le> findIndex p xs" using findIndex_bounds [of p xs] by arith
    then have "nat (findIndex p xs + 1) = Suc (nat (findIndex p xs))" by simp
    with False ne Cons.IH show ?thesis by (simp add: Let_def)
  qed
qed

lemma findIndex_map: "findIndex (\<lambda>x. p (f x)) xs = findIndex p (map f xs)"
  by (induction xs) (simp_all add: Let_def)

subsection \<open>The catalog\<close>

lemma length_SONGS: "length SONGS = 5"
  by (simp add: SONGS_def)

lemma SONGS_ids: "map song_id SONGS = [1, 2, 3, 4, 5]"
  by (simp add: SONGS_def)

lemma SONGS_id_texts:
  "map (\<lambda>s. show_int (song_id s)) SONGS = [str ''1'', str ''2'', str ''3'', str ''4'', str ''5'']"
  by code_simp

lemma findIndex_distinct:
  assumes "distinct (map f xs)" "s \<in> set xs"
  shows "0 \<le> findIndex (\<lambda>x. f x = f s) xs \<and> findIndex (\<lambda>x. f x = f s) xs < int (length xs)
     \<and> xs ! nat (findIndex (\<lambda>x. f x = f s) xs) = s"
proof -
  let ?i = "findIndex (\<lambda>x. f x = f s) xs"
  have ne: "?i \<noteq> - 1" using assms(2) by (auto simp: findIndex_none)
  then have b: "0 \<le> ?i" "?i < int (length xs)"
    using findIndex_bounds [of "\<lambda>x. f x = f s" xs] by arith+
  then have k: "nat ?i < length xs" by simp
  have "f (xs ! nat ?i) = f s" using findIndex_found [OF ne] .
  moreover have "inj_on f (set xs)" using assms(1) by (simp add: distinct_map)
  ultimately have "xs ! nat ?i = s" using assms(2) k by (auto dest: inj_onD)
  with b show ?thesis by simp
qed

lemma SONGS_ids_distinct: "distinct (map song_id SONGS)"
  by (simp add: SONGS_ids)

lemma SONGS_id_texts_distinct: "distinct (map (\<lambda>s. show_int (song_id s)) SONGS)"
  unfolding SONGS_id_texts by (simp add: str_def cu_def)

subsection \<open>Loading what was saved\<close>

lemma stringify_not_Nil: "JSON_stringify v \<noteq> []"
  using stringify_start [of v] by auto

lemma load_absent: "st key = None \<Longrightarrow> loadFromStorage st key fb = Inr fb"
  by (simp add: loadFromStorage_def)

lemma load_stringify:
  "wf_json v \<Longrightarrow> st key = Some (JSON_stringify v) \<Longrightarrow> loadFromStorage st key fb = Inr v"
  by (simp add: loadFromStorage_def stringify_not_Nil JSON_roundtrip)

lemma load_saved: "wf_json v \<Longrightarrow> loadFromStorage (saveToStorage key v st) key fb = Inr v"
  by (rule load_stringify) (simp_all add: saveToStorage_def)

lemma wf_user_obj: "wf_json (user_obj u)"
  by (simp add: user_obj_def str_def cu_def)

subsection \<open>Playing\<close>

lemma chosen_of_user_obj:
  "chosen_of (user_obj u) =
     Inr (if user_mood u = [] then SONGS else filter (\<lambda>s. mood s = user_mood u) SONGS)"
proof -
  have m: "get_prop (user_obj u) (str ''mood'') = Inr (Some (JStr (user_mood u)))"
    by (simp add: user_obj_def str_def cu_def)
  have "filter (\<lambda>s. JStr (user_mood u) = JStr (mood s)) SONGS
      = filter (\<lambda>s. mood s = user_mood u) SONGS"
    by (rule filter_cong) auto
  with m show ?thesis by (simp add: chosen_of_def user_obj_def)
qed

lemma chosen_of_subset: "chosen_of user = Inr cs \<Longrightarrow> set cs \<subseteq> set SONGS"
  by (auto simp: chosen_of_def split: if_splits sum.splits option.splits)

lemma init_page_inv:
  assumes "initSuggestionsPage st d = Inr p" "now d = Some t"
  shows "page_inv p \<and> currentIndex p = - 1 \<and> doc p = d"
proof -
  obtain a user cs where "audio d = Some a" "chosen_of user = Inr cs"
    "p = \<lparr>chosen = cs, currentIndex = - 1, doc = d\<rparr>"
    using assms(1) by (auto simp: initSuggestionsPage_def split: option.splits sum.splits)
  then show ?thesis
    using assms(2) chosen_of_subset [of user cs] by (simp add: page_inv_def length_SONGS)
qed

lemma playSongAtIndex_ok:
  assumes "audio d \<noteq> None" "now d \<noteq> None"
  shows "\<exists>d'. playSongAtIndex i d = Inr d' \<and> audio d' \<noteq> None \<and> now d' \<noteq> None"
  using assms by (auto simp: playSongAtIndex_def Let_def)

lemma js_rem_wrap:
  assumes "0 \<le> i" "i < n" "dir = 1 \<or> dir = - 1"
  shows "js_rem (i + dir + n) n = (i + dir) mod n"
proof -
  have "0 \<le> i + dir + n" "0 < n" using assms by auto
  then have "js_rem (i + dir + n) n = (i + dir + n) mod n" by (simp add: js_rem_def)
  then show ?thesis by simp
qed

lemma changeTrack_index:
  assumes "audio (doc p) \<noteq> None" "now (doc p) \<noteq> None" "dir = 1 \<or> dir = - 1"
    and "- 1 \<le> currentIndex p" "currentIndex p < int (length SONGS)"
  shows "\<exists>p'. changeTrack dir p = Inr p' \<and> chosen p' = chosen p
     \<and> audio (doc p') \<noteq> None \<and> now (doc p') \<noteq> None
     \<and> currentIndex p' =
         (if currentIndex p = - 1 then 0 else (currentIndex p + dir) mod int (length SONGS))"
proof -
  define i where "i = (if currentIndex p = - 1 then 0
     else js_rem (currentIndex p + dir + int (length SONGS)) (int (length SONGS)))"
  have i: "i = (if currentIndex p = - 1 then 0 else (currentIndex p + dir) mod int (length SONGS))"
    unfolding i_def using assms(3-5) by (auto simp: js_rem_wrap)
  obtain d' where "playSongAtIndex i (doc p) = Inr d'" "audio d' \<noteq> None" "now d' \<noteq> None"
    using playSongAtIndex_ok [OF assms(1,2)] by blast
  then have "changeTrack dir p = Inr (p\<lparr>currentIndex := i, doc := d'\<rparr>)"
    by (simp add: changeTrack_def i_def Let_def)
  with i \<open>audio d' \<noteq> None\<close> \<open>now d' \<noteq> None\<close> show ?thesis by simp
qed

lemma playClick_index:
  assumes "audio (doc p) \<noteq> None" "now (doc p) \<noteq> None" "s \<in> set SONGS"
  shows "\<exists>p'. playClick s p = Inr p' \<and> chosen p' = chosen p
     \<and> audio (doc p') \<noteq> None \<and> now (doc p') \<noteq> None
     \<and> 0 \<le> currentIndex p' \<and> currentIndex p' < int (length SONGS)
     \<and> SONGS ! nat (currentIndex p') = s"
proof -
  define i where "i = findIndex (\<lambda>x. song_id x = song_id s) SONGS"
  have i: "0 \<le> i \<and> i < int (length SONGS) \<and> SONGS ! nat i = s"
    unfolding i_def using findIndex_distinct [OF SONGS_ids_distinct assms(3)] by simp
  obtain d' where "playSongAtIndex i (doc p) = Inr d'" "audio d' \<noteq> None" "now d' \<noteq> None"
    using playSongAtIndex_ok [OF assms(1,2)] by blast
  then have "playClick s p = Inr (p\<lparr>currentIndex := i, doc := d'\<rparr>)"
    by (simp add: playClick_def i_def Let_def)
  with i \<open>audio d' \<noteq> None\<close> \<open>now d' \<noteq> None\<close> show ?thesis by simp
qed

lemma act_page_inv:
  assumes "page_inv p" "possible p a"
  shows "\<exists>p'. act a p = Inr p' \<and> page_inv p' \<and> chosen p' = chosen p \<and> 0 \<le> currentIndex p'"
proof (cases a)
  case (PlayClick s)
  with assms have "s \<in> set SONGS" by (auto simp: page_inv_def)
  with assms(1) PlayClick playClick_index [of p s] show ?thesis
    by (fastforce simp: page_inv_def)
next
  case Prev
  obtain p' where p': "changeTrack (- 1) p = Inr p'" "chosen p' = chosen p"
    "audio (doc p') \<noteq> None" "now (doc p') \<noteq> None"
    "currentIndex p' = (if currentIndex p = - 1 then 0 else (currentIndex p + - 1) mod int (length SONGS))"
    using changeTrack_index [of p "- 1"] assms(1) unfolding page_inv_def by blast
  have "0 \<le> currentIndex p' \<and> currentIndex p' < int (length SONGS)"
    using p'(5) by (simp add: length_SONGS)
  with p' assms(1) Prev show ?thesis by (simp add: page_inv_def)
next
  case Next
  obtain p' where p': "changeTrack 1 p = Inr p'" "chosen p' = chosen p"
    "audio (doc p') \<noteq> None" "now (doc p') \<noteq> None"
    "currentIndex p' = (if currentIndex p = - 1 then 0 else (currentIndex p + 1) mod int (length SONGS))"
    using changeTrack_index [of p 1] assms(1) unfolding page_inv_def by blast
  have "0 \<le> currentIndex p' \<and> currentIndex p' < int (length SONGS)"
    using p'(5) by (simp add: length_SONGS)
  with p' assms(1) Next show ?thesis by (simp add: page_inv_def)
next
  case Ended
  obtain p' where p': "changeTrack 1 p = Inr p'" "chosen p' = chosen p"
    "audio (doc p') \<noteq> None" "now (doc p') \<noteq> None"
    "currentIndex p' = (if currentIndex p = - 1 then 0 else (currentIndex p + 1) mod int (length SONGS))"
    using changeTrack_index [of p 1] assms(1) unfolding page_inv_def by blast
  have "0 \<le> currentIndex p' \<and> currentIndex p' < int (length SONGS)"
    using p'(5) by (simp add: length_SONGS)
  with p' assms(1) Ended show ?thesis by (simp add: page_inv_def)
qed

lemma possible_chosen: "chosen p' = chosen p \<Longrightarrow> possible p' a = possible p a"
  by (cases a) simp_all

lemma run_page_inv:
  assumes "page_inv p" "\<forall>a\<in>set as. possible p a" "as \<noteq> []"
  shows "\<exists>p'. run as p = Inr p' \<and> page_inv p' \<and> chosen p' = chosen p \<and> 0 \<le> currentIndex p'"
  using assms
proof (induction as arbitrary: p)
  case Nil
  then show ?case by simp
next
  case (Cons a as)
  obtain p1 where p1: "act a p = Inr p1" "page_inv p1" "chosen p1 = chosen p" "0 \<le> currentIndex p1"
    using act_page_inv [of p a] Cons.prems by auto
  show ?case
  proof (cases "as = []")
    case True
    with p1 show ?thesis by simp
  next
    case False
    have "\<forall>b\<in>set as. possible p1 b"
      using Cons.prems(2) possible_chosen [OF p1(3)] by simp
    from Cons.IH [OF p1(2) this False] p1 show ?thesis by auto
  qed
qed

subsection \<open>The saved list\<close>

lemma wf_saved_obj: "wf_json (saved_obj e)"
  by (simp add: saved_obj_def song_obj_def str_def cu_def)

lemma wf_saved_list: "wf_json (JArr (map saved_obj ss))"
  by (simp add: list_all_iff wf_saved_obj)

lemma get_id_saved_obj: "get_prop (saved_obj e) (str ''id'') = Inr (Some (JNum (saved_id e)))"
  by (simp add: saved_obj_def song_obj_def saved_id_def)

lemma id_of_saved_obj: "id_of (saved_obj e) = Some (JNum (saved_id e))"
  by (simp add: id_of_def get_id_saved_obj)

lemma some_id_saved: "some_id (map saved_obj ss) n = Inr (n \<in> saved_id ` set ss)"
  by (induction ss) (auto simp: get_id_saved_obj)

lemma toSave_saved_obj:
  "JObj (obj_set (str ''savedAt'') (JStr ts) (song_obj s)) = saved_obj (s, ts)"
  by (simp add: saved_obj_def song_obj_def str_def cu_def)

lemma persisted_absent: "st SAVED = None \<Longrightarrow> persisted st []"
  by (simp add: persisted_def load_absent)

lemma persisted_saved: "persisted (saveToStorage SAVED (JArr (map saved_obj ss)) st) ss"
  unfolding persisted_def by (rule load_saved) (rule wf_saved_list)

lemma saveSong_persisted:
  assumes "persisted st ss"
  shows "saveSong s ts st =
     Inr (if song_id s \<in> saved_id ` set ss then st
          else saveToStorage SAVED (JArr (map saved_obj (ss @ [(s, ts)]))) st)"
  using assms
  by (simp add: saveSong_def persisted_def some_id_saved toSave_saved_obj Let_def)

lemma length_filter_distinct:
  "distinct (map f xs) \<Longrightarrow> x \<in> set xs \<Longrightarrow> length (filter (\<lambda>e. f e = f x) xs) = 1"
proof (induction xs)
  case Nil
  then show ?case by simp
next
  case (Cons a xs)
  show ?case
  proof (cases "f a = f x")
    case True
    have "f a \<notin> f ` set xs" using Cons.prems(1) by simp
    with True have "\<forall>e\<in>set xs. f e \<noteq> f x" by (metis imageI)
    then have "filter (\<lambda>e. f e = f x) xs = []" by (simp add: filter_empty_conv)
    with True show ?thesis by simp
  next
    case False
    then have "x \<in> set xs" using Cons.prems(2) by auto
    with Cons False show ?thesis by simp
  qed
qed

lemma render_persisted:
  assumes "persisted st ss"
  shows "renderSavedSongs st = Inr (if ss = [] then Placeholder else Entries (map saved_obj ss))"
proof -
  have "JNull \<notin> set (map saved_obj ss)" by (auto simp: saved_obj_def)
  with assms show ?thesis by (simp add: renderSavedSongs_def persisted_def)
qed

lemma filter_enumerate:
  "map snd (filter (\<lambda>(j, x). P x) (enumerate n xs)) = filter P xs"
  by (induction xs arbitrary: n) simp_all

lemma remaining_saved:
  assumes "i < length ss"
  shows "remaining i (map saved_obj ss) =
     map saved_obj (filter (\<lambda>e. saved_id e \<noteq> saved_id (ss ! i)) ss)"
proof -
  let ?xs = "map saved_obj ss"
  let ?P = "\<lambda>x. id_of x \<noteq> Some (JNum (saved_id (ss ! i)))"
  have "filter (\<lambda>(j, x). \<not> strict_eq (j = i) (id_of x) (id_of (?xs ! i))) (enumerate 0 ?xs)
      = filter (\<lambda>(j, x). ?P x) (enumerate 0 ?xs)"
  proof (rule filter_cong [OF refl])
    fix jx assume "jx \<in> set (enumerate 0 ?xs)"
    moreover obtain j x where jx: "jx = (j, x)" by (cases jx)
    ultimately have "x = saved_obj (ss ! j)" by (auto simp: in_set_enumerate_eq)
    then show "(case jx of (j, x) \<Rightarrow> \<not> strict_eq (j = i) (id_of x) (id_of (?xs ! i)))
        = (case jx of (j, x) \<Rightarrow> ?P x)"
      using assms jx by (simp add: id_of_saved_obj)
  qed
  then have "remaining i ?xs = filter ?P ?xs"
    by (simp add: remaining_def filter_enumerate)
  also have "\<dots> = map saved_obj (filter (\<lambda>e. saved_id e \<noteq> saved_id (ss ! i)) ss)"
    by (simp add: filter_map comp_def id_of_saved_obj)
  finally show ?thesis .
qed

lemma removeClick_persisted:
  assumes "i < length ss"
  shows "removeClick i (map saved_obj ss) st =
     (saveToStorage SAVED
        (JArr (map saved_obj (filter (\<lambda>e. saved_id e \<noteq> saved_id (ss ! i)) ss))) st,
      Inr (if filter (\<lambda>e. saved_id e \<noteq> saved_id (ss ! i)) ss = [] then Placeholder
           else Entries (map saved_obj (filter (\<lambda>e. saved_id e \<noteq> saved_id (ss ! i)) ss))))"
  using render_persisted [OF persisted_saved] assms
  by (simp add: removeClick_def remaining_saved [OF assms] Let_def)

lemma store_step_inv:
  assumes "persisted st ss" "distinct (map saved_id ss)"
  shows "\<exists>st' ss'. store_step e st = Inr st' \<and> persisted st' ss' \<and> distinct (map saved_id ss')"
proof (cases e)
  case (Save s ts)
  show ?thesis
  proof (cases "song_id s \<in> saved_id ` set ss")
    case True
    with assms Save show ?thesis by (auto simp: saveSong_persisted)
  next
    case False
    have "persisted (saveToStorage SAVED (JArr (map saved_obj (ss @ [(s, ts)]))) st) (ss @ [(s, ts)])"
      by (rule persisted_saved)
    moreover have "distinct (map saved_id (ss @ [(s, ts)]))"
      using assms(2) False by (auto simp: saved_id_def)
    ultimately show ?thesis using False Save assms(1) saveSong_persisted [of st ss s ts]
      by auto
  qed
next
  case (Remove i)
  show ?thesis
  proof (cases "i < length ss")
    case True
    let ?ss = "filter (\<lambda>e. saved_id e \<noteq> saved_id (ss ! i)) ss"
    have "ss \<noteq> []" using True by auto
    then have "store_step e st = Inr (saveToStorage SAVED (JArr (map saved_obj ?ss)) st)"
      using Remove True render_persisted [OF assms(1)] removeClick_persisted [OF True, of st]
      by simp
    moreover have "distinct (map saved_id ?ss)" using assms(2) by (simp add: distinct_map_filter)
    ultimately show ?thesis using persisted_saved [of ?ss st] by blast
  next
    case False
    then have "store_step e st = Inr st"
      using Remove render_persisted [OF assms(1)] by (simp add: removeClick_def)
    with assms show ?thesis by blast
  qed
next
  case Clear
  have "persisted (st(SAVED := None)) []" by (rule persisted_absent) simp
  then show ?thesis using Clear by (auto simp: clearClick_def Let_def)
qed

lemma store_run_inv:
  assumes "persisted st ss" "distinct (map saved_id ss)"
  shows "\<exists>st' ss'. store_run es st = Inr st' \<and> persisted st' ss' \<and> distinct (map saved_id ss')"
  using assms
proof (induction es arbitrary: st ss)
  case Nil
  then show ?case by auto
next
  case (Cons e es)
  obtain st1 ss1 where "store_step e st = Inr st1" "persisted st1 ss1" "distinct (map saved_id ss1)"
    using store_step_inv [OF Cons.prems] by blast
  with Cons.IH [of st1 ss1] show ?case by simp
qed

section \<open>The claims\<close>

text \<open>
  C1. When the persisted saved list has no two entries of the same id, \<open>saveSong(s)\<close>
  leaves exactly one entry with the id of \<open>s\<close> in it, whether or not one was there, a
  second \<open>saveSong(s)\<close> changes nothing, and the list still has no two entries of the same
  id. From a store without saved songs, no sequence of Save, Remove and clear-all ever
  persists a list with two entries of the same id.
\<close>

theorem saveSong_keeps_ids_unique:
  "(persisted st ss \<and> distinct (map saved_id ss) \<longrightarrow>
      (\<exists>st' ss'. saveSong s ts st = Inr st' \<and> saveSong s ts' st' = Inr st'
         \<and> persisted st' ss'
         \<and> ss' = (if song_id s \<in> saved_id ` set ss then ss else ss @ [(s, ts)])
         \<and> distinct (map saved_id ss')
         \<and> length (filter (\<lambda>e. saved_id e = song_id s) ss') = 1))
   \<and> (st SAVED = None \<longrightarrow>
      (\<exists>st' ss'. store_run es st = Inr st' \<and> persisted st' ss' \<and> distinct (map saved_id ss')))"
proof (intro conjI impI)
  assume a: "persisted st ss \<and> distinct (map saved_id ss)"
  define ss' where "ss' = (if song_id s \<in> saved_id ` set ss then ss else ss @ [(s, ts)])"
  define st' where "st' = (if song_id s \<in> saved_id ` set ss then st
     else saveToStorage SAVED (JArr (map saved_obj (ss @ [(s, ts)]))) st)"
  have first: "saveSong s ts st = Inr st'"
    using a by (simp add: saveSong_persisted st'_def)
  have p: "persisted st' ss'"
    using a persisted_saved [of "ss @ [(s, ts)]" st] by (simp add: st'_def ss'_def)
  have inside: "song_id s \<in> saved_id ` set ss'" by (simp add: ss'_def saved_id_def)
  have second: "saveSong s ts' st' = Inr st'"
    using saveSong_persisted [OF p, of s ts'] inside by simp
  have d: "distinct (map saved_id ss')"
    using a by (auto simp: ss'_def saved_id_def)
  obtain x where x: "x \<in> set ss'" "saved_id x = song_id s" using inside by auto
  have "length (filter (\<lambda>e. saved_id e = saved_id x) ss') = 1"
    using d x(1) by (rule length_filter_distinct)
  then have one: "length (filter (\<lambda>e. saved_id e = song_id s) ss') = 1" using x(2) by simp
  show "\<exists>st' ss'. saveSong s ts st = Inr st' \<and> saveSong s ts' st' = Inr st'
         \<and> persisted st' ss'
         \<and> ss' = (if song_id s \<in> saved_id ` set ss then ss else ss @ [(s, ts)])
         \<and> distinct (map saved_id ss')
         \<and> length (filter (\<lambda>e. saved_id e = song_id s) ss') = 1"
    using first second p d one ss'_def by blast
next
  assume "st SAVED = None"
  then have "persisted st []" by (rule persisted_absent)
  then show "\<exists>st' ss'. store_run es st = Inr st' \<and> persisted st' ss' \<and> distinct (map saved_id ss')"
    by (rule store_run_inv) simp
qed

text \<open>
  On the empty store, which persists the empty list: the first song saved twice gives
  the list of that one entry; and a run of saves of the same song, a remove and a clear
  ends in a list without two entries of the same id.
\<close>

theorem saveSong_keeps_ids_unique_witness:
  "persisted Map.empty [] \<and> distinct (map saved_id []) \<and> Map.empty SAVED = None
   \<and> (\<exists>st'. saveSong (SONGS ! 0) (str ''t1'') Map.empty = Inr st'
          \<and> saveSong (SONGS ! 0) (str ''t2'') st' = Inr st'
          \<and> persisted st' [(SONGS ! 0, str ''t1'')])
   \<and> (\<exists>st' ss'. store_run [Save (SONGS ! 0) (str ''t1''), Save (SONGS ! 0) (str ''t2''),
                             Save (SONGS ! 1) (str ''t3''), Remove 0, Clear] Map.empty = Inr st'
          \<and> persisted st' ss' \<and> distinct (map saved_id ss'))"
proof -
  let ?es = "[Save (SONGS ! 0) (str ''t1''), Save (SONGS ! 0) (str ''t2''),
              Save (SONGS ! 1) (str ''t3''), Remove 0, Clear]"
  have a: "persisted Map.empty []" by (rule persisted_absent) simp
  have b: "distinct (map saved_id [])" "Map.empty SAVED = None" by simp_all
  note t = saveSong_keeps_ids_unique
    [of Map.empty "[]" "SONGS ! 0" "str ''t1''" "str ''t2''" ?es]
  from t a b obtain st' ss' where
    "saveSong (SONGS ! 0) (str ''t1'') Map.empty = Inr st'"
    "saveSong (SONGS ! 0) (str ''t2'') st' = Inr st'" "persisted st' ss'"
    "ss' = (if song_id (SONGS ! 0) \<in> saved_id ` set [] then [] else [] @ [(SONGS ! 0, str ''t1'')])"
    by blast
  then have one: "\<exists>st'. saveSong (SONGS ! 0) (str ''t1'') Map.empty = Inr st'
          \<and> saveSong (SONGS ! 0) (str ''t2'') st' = Inr st'
          \<and> persisted st' [(SONGS ! 0, str ''t1'')]"
    by auto
  from t b have "\<exists>st' ss'. store_run ?es Map.empty = Inr st'
          \<and> persisted st' ss' \<and> distinct (map saved_id ss')"
    by blast
  with one a b show ?thesis by blast
qed

text \<open>
  C2, as amended. On a page with both elements, for \<open>dir\<close> either \<open>1\<close> or \<open>-1\<close>,
  \<open>changeTrack(dir)\<close> from a set index moves the index by \<open>dir\<close> modulo the length of the
  catalog, whatever the displayed list is; from the unset index it selects \<open>0\<close>. The
  displayed list is left as it is.
\<close>

theorem changeTrack_wraps_over_catalog:
  assumes "audio (doc p) \<noteq> None" "now (doc p) \<noteq> None" "dir = 1 \<or> dir = - 1"
    and "- 1 \<le> currentIndex p" "currentIndex p < int (length SONGS)"
  shows "\<exists>p'. changeTrack dir p = Inr p' \<and> chosen p' = chosen p
     \<and> currentIndex p' =
         (if currentIndex p = - 1 then 0 else (currentIndex p + dir) mod int (length SONGS))"
  using changeTrack_index [OF assms] by blast

text \<open>
  From the last index of the catalog Next gives \<open>0\<close>, from \<open>0\<close> Prev gives the last index
  of the catalog, and from the unset index Next gives \<open>0\<close>.
\<close>

theorem changeTrack_wraps_over_catalog_witness:
  "audio dom0 \<noteq> None \<and> now dom0 \<noteq> None \<and> (4::int) < int (length SONGS)
   \<and> (\<exists>p'. changeTrack 1 \<lparr>chosen = SONGS, currentIndex = 4, doc = dom0\<rparr> = Inr p'
          \<and> currentIndex p' = 0)
   \<and> (\<exists>p'. changeTrack (- 1) \<lparr>chosen = SONGS, currentIndex = 0, doc = dom0\<rparr> = Inr p'
          \<and> currentIndex p' = 4)
   \<and> (\<exists>p'. changeTrack 1 \<lparr>chosen = SONGS, currentIndex = - 1, doc = dom0\<rparr> = Inr p'
          \<and> currentIndex p' = 0)"
  using changeTrack_wraps_over_catalog [of "\<lparr>chosen = SONGS, currentIndex = 4, doc = dom0\<rparr>" 1]
    changeTrack_wraps_over_catalog [of "\<lparr>chosen = SONGS, currentIndex = 0, doc = dom0\<rparr>" "- 1"]
    changeTrack_wraps_over_catalog [of "\<lparr>chosen = SONGS, currentIndex = - 1, doc = dom0\<rparr>" 1]
  by (simp add: dom0_def length_SONGS) blast

text \<open>
  C2 as stated fails. With the mood \<open>chill\<close> stored, two songs are displayed; after Next,
  Next the index is \<open>1\<close>, the last index of the displayed list, and one more Next gives
  \<open>2\<close>, where the claim has \<open>(1 + 1) mod 2 = 0\<close>.
\<close>

theorem changeTrack_displayed_counterexample:
  "shown chill_store dom0 = Some 2
   \<and> index_after [Next, Next] chill_store dom0 = Some 1
   \<and> index_after [Next, Next, Next] chill_store dom0 = Some 2
   \<and> (1 + 1) mod 2 \<noteq> (2::int)"
  by code_simp

text \<open>
  C3, as amended. On a page with both elements, after every play action (the Play button
  of a displayed song, Prev, Next, or the end of a track) the index is a valid index into
  the catalog, \<open>0 \<le> currentIndex < SONGS.length\<close>, whatever is stored and displayed.
\<close>

theorem index_valid_in_catalog:
  assumes "initSuggestionsPage st d = Inr p0" "now d \<noteq> None"
    and "as \<noteq> []" "\<forall>a\<in>set as. possible p0 a"
  shows "\<exists>p. run as p0 = Inr p \<and> chosen p = chosen p0
     \<and> 0 \<le> currentIndex p \<and> currentIndex p < int (length SONGS)"
proof -
  obtain t where "now d = Some t" using assms(2) by auto
  then have "page_inv p0" using init_page_inv [OF assms(1)] by simp
  from run_page_inv [OF this assms(4,3)] show ?thesis by (auto simp: page_inv_def)
qed

text \<open>With the mood \<open>chill\<close> stored: the Play button of the second displayed song, then Next.\<close>

theorem index_valid_in_catalog_witness:
  "initSuggestionsPage chill_store dom0 =
     Inr \<lparr>chosen = [SONGS ! 0, SONGS ! 4], currentIndex = - 1, doc = dom0\<rparr>
   \<and> now dom0 \<noteq> None
   \<and> possible \<lparr>chosen = [SONGS ! 0, SONGS ! 4], currentIndex = - 1, doc = dom0\<rparr>
         (PlayClick (SONGS ! 4))
   \<and> possible \<lparr>chosen = [SONGS ! 0, SONGS ! 4], currentIndex = - 1, doc = dom0\<rparr> Next
   \<and> (\<exists>p. run [PlayClick (SONGS ! 4), Next]
              \<lparr>chosen = [SONGS ! 0, SONGS ! 4], currentIndex = - 1, doc = dom0\<rparr> = Inr p
          \<and> 0 \<le> currentIndex p \<and> currentIndex p < int (length SONGS))"
proof -
  have i: "initSuggestionsPage chill_store dom0 =
     Inr \<lparr>chosen = [SONGS ! 0, SONGS ! 4], currentIndex = - 1, doc = dom0\<rparr>"
    by code_simp
  have n: "now dom0 \<noteq> None" by (simp add: dom0_def)
  have p: "\<forall>a\<in>set [PlayClick (SONGS ! 4), Next].
         possible \<lparr>chosen = [SONGS ! 0, SONGS ! 4], currentIndex = - 1, doc = dom0\<rparr> a"
    by simp
  have "[PlayClick (SONGS ! 4), Next] \<noteq> []" by simp
  from index_valid_in_catalog [OF i n this p]
  have "\<exists>p. run [PlayClick (SONGS ! 4), Next]
              \<lparr>chosen = [SONGS ! 0, SONGS ! 4], currentIndex = - 1, doc = dom0\<rparr> = Inr p
          \<and> 0 \<le> currentIndex p \<and> currentIndex p < int (length SONGS)"
    by blast
  moreover have "possible \<lparr>chosen = [SONGS ! 0, SONGS ! 4], currentIndex = - 1, doc = dom0\<rparr>
         (PlayClick (SONGS ! 4))"
    "possible \<lparr>chosen = [SONGS ! 0, SONGS ! 4], currentIndex = - 1, doc = dom0\<rparr> Next"
    by simp_all
  ultimately show ?thesis using i n by blast
qed

text \<open>
  C3 as stated fails. With the mood \<open>chill\<close> stored, two songs are displayed, the second
  of them the fifth song of the catalog; its Play button sets the index to \<open>4\<close>, which is
  no index into a list of two.
\<close>

theorem index_displayed_counterexample:
  "shown chill_store dom0 = Some 2
   \<and> SONGS ! 4 \<in> set (filter (\<lambda>s. mood s = str ''chill'') SONGS)
   \<and> index_after [PlayClick (SONGS ! 4)] chill_store dom0 = Some 4
   \<and> \<not> (4::int) < 2"
  by code_simp

text \<open>
  C4 as stated fails: \<open>loadFromStorage\<close> has no handler around \<open>JSON.parse\<close>, so a stored
  text that is not JSON throws to the caller instead of giving the fallback. Here the
  stored text is a preferences object cut off before its closing brace.
\<close>

theorem loadFromStorage_malformed_counterexample:
  "loadFromStorage (Map.empty(USER \<mapsto> str ''{\"name\":\"Al\"'')) USER JNull = Inl SyntaxError"
  by code_simp

text \<open>
  C4, as amended. \<open>loadFromStorage(key, fallback)\<close> returns the fallback when the key is
  absent or the stored text is empty; on any other stored text it does what \<open>JSON.parse\<close>
  does on it, returning the value or throwing its error to the caller; it returns \<open>v\<close>
  when the stored text is the serialized \<open>v\<close>; and nothing else is ever thrown.
\<close>

theorem loadFromStorage_cases:
  "(st key = None \<or> st key = Some [] \<longrightarrow> loadFromStorage st key fb = Inr fb)
   \<and> (st key = Some raw \<and> raw \<noteq> [] \<longrightarrow> loadFromStorage st key fb = JSON_parse raw)
   \<and> (wf_json v \<and> st key = Some (JSON_stringify v) \<longrightarrow> loadFromStorage st key fb = Inr v)
   \<and> (loadFromStorage st key fb = Inl e \<longrightarrow> e = SyntaxError \<or> e = Unsupported)"
proof -
  have "e = SyntaxError \<or> e = Unsupported" if "loadFromStorage st key fb = Inl e"
    using that JSON_parse_error [of _ e]
    by (auto simp: loadFromStorage_def split: option.splits if_splits)
  then show ?thesis
    using load_stringify [of v st key fb] by (auto simp: loadFromStorage_def)
qed

text \<open>
  An empty store, an empty text, the stored preferences of \<open>chill_store\<close>, and a text
  that \<open>JSON.parse\<close> rejects.
\<close>

theorem loadFromStorage_cases_witness:
  "loadFromStorage Map.empty USER JNull = Inr JNull
   \<and> loadFromStorage (Map.empty(USER \<mapsto> [])) USER JNull = Inr JNull
   \<and> wf_json (user_obj chill_prefs)
   \<and> loadFromStorage chill_store USER JNull = Inr (user_obj chill_prefs)
   \<and> loadFromStorage (Map.empty(USER \<mapsto> str ''{'')) USER JNull = JSON_parse (str ''{'')
   \<and> JSON_parse (str ''{'') = Inl SyntaxError"
proof -
  have c: "chill_store USER = Some (JSON_stringify (user_obj chill_prefs))"
    by (simp add: chill_store_def saveToStorage_def)
  have p: "JSON_parse (str ''{'') = Inl SyntaxError" by code_simp
  have n: "str ''{'' \<noteq> []" by (simp add: str_def)
  show ?thesis
    using loadFromStorage_cases [of Map.empty USER JNull]
      loadFromStorage_cases [of "Map.empty(USER \<mapsto> [])" USER JNull]
      loadFromStorage_cases [of chill_store USER JNull _ "user_obj chill_prefs"]
      loadFromStorage_cases [of "Map.empty(USER \<mapsto> str ''{'')" USER JNull "str ''{''"]
      c p n wf_user_obj [of chill_prefs]
    by simp
qed

text \<open>
  C5. \<open>validateForm\<close> applies its rules in order, the first failure winning: the name
  message iff the name is empty or shorter than two characters once trimmed; otherwise
  the email message iff the email has not the shape non-space+ \<open>@\<close> non-space+ \<open>.\<close>
  non-space+; otherwise the mood message iff the mood is empty; otherwise ok.
\<close>

theorem validateForm_rules:
  "validateForm n e m =
     (if n = [] \<or> length (trim n) < 2
        then NotOk (str ''Name must be at least 2 characters.'')
      else if \<not> email_shape e then NotOk (str ''Please enter a valid email.'')
      else if m = [] then NotOk (str ''Please pick a mood/type.'')
      else Ok)"
  using not_email_shape_Nil by (auto simp: validateForm_def regex_test_email)

text \<open>
  The rules at \<open>validateForm("Al", "a@b.com", "chill")\<close>, which is ok, and at a name of one
  character between spaces.
\<close>

theorem validateForm_rules_witness:
  "validateForm (str ''Al'') (str ''a@b.com'') (str ''chill'') = Ok
   \<and> email_shape (str ''a@b.com'')
   \<and> validateForm (str '' A '') (str ''a@b.com'') (str ''chill'')
       = NotOk (str ''Name must be at least 2 characters.'')"
proof -
  have a: "validateForm (str ''Al'') (str ''a@b.com'') (str ''chill'') = Ok"
    by code_simp
  have b: "validateForm (str '' A '') (str ''a@b.com'') (str ''chill'')
       = NotOk (str ''Name must be at least 2 characters.'')"
    by code_simp
  from a validateForm_rules [of "str ''Al''" "str ''a@b.com''" "str ''chill''"]
  have "email_shape (str ''a@b.com'')"
    by (auto split: if_splits)
  with a b show ?thesis by simp
qed

text \<open>
  C6. On a Profile page rendered from the persisted list, the Remove button of an entry
  persists the list without the entries of that id, the others unchanged and in their
  order, and the page rendered again shows exactly the new persisted list (the
  placeholder when it is empty), read back from the store.
\<close>

theorem removeClick_removes:
  assumes "persisted st ss" "i < length ss"
  shows "renderSavedSongs st = Inr (Entries (map saved_obj ss))
     \<and> (\<exists>st' v. removeClick i (map saved_obj ss) st = (st', Inr v)
          \<and> persisted st' (filter (\<lambda>e. saved_id e \<noteq> saved_id (ss ! i)) ss)
          \<and> renderSavedSongs st' = Inr v
          \<and> entries v = map saved_obj (filter (\<lambda>e. saved_id e \<noteq> saved_id (ss ! i)) ss)
          \<and> saved_id (ss ! i) \<notin> saved_id ` set (filter (\<lambda>e. saved_id e \<noteq> saved_id (ss ! i)) ss)
          \<and> (if SAVED = USER then True else st' USER = st USER))"
proof -
  let ?ss = "filter (\<lambda>e. saved_id e \<noteq> saved_id (ss ! i)) ss"
  let ?st = "saveToStorage SAVED (JArr (map saved_obj ?ss)) st"
  let ?v = "if ?ss = [] then Placeholder else Entries (map saved_obj ?ss)"
  have "ss \<noteq> []" using assms(2) by auto
  then have before: "renderSavedSongs st = Inr (Entries (map saved_obj ss))"
    using render_persisted [OF assms(1)] by simp
  have click: "removeClick i (map saved_obj ss) st = (?st, Inr ?v)"
    by (rule removeClick_persisted [OF assms(2)])
  have p: "persisted ?st ?ss" by (rule persisted_saved)
  have again: "renderSavedSongs ?st = Inr ?v" by (rule render_persisted [OF p])
  have shown: "entries ?v = map saved_obj ?ss" by simp
  have other: "(if SAVED = USER then True else ?st USER = st USER)"
    by (simp add: saveToStorage_def)
  have gone: "saved_id (ss ! i) \<notin> saved_id ` set ?ss" by auto
  from before click p again shown other gone show ?thesis by blast
qed

text \<open>Three saved songs; remove the second: the first and the third stay, in this order.\<close>

theorem removeClick_removes_witness:
  "persisted (saveToStorage SAVED
       (JArr (map saved_obj [(SONGS ! 0, str ''t1''), (SONGS ! 1, str ''t2''), (SONGS ! 4, str ''t3'')]))
       Map.empty)
     [(SONGS ! 0, str ''t1''), (SONGS ! 1, str ''t2''), (SONGS ! 4, str ''t3'')]
   \<and> (\<exists>st' v. removeClick 1
         (map saved_obj [(SONGS ! 0, str ''t1''), (SONGS ! 1, str ''t2''), (SONGS ! 4, str ''t3'')])
         (saveToStorage SAVED
           (JArr (map saved_obj [(SONGS ! 0, str ''t1''), (SONGS ! 1, str ''t2''), (SONGS ! 4, str ''t3'')]))
           Map.empty) = (st', Inr v)
       \<and> persisted st' [(SONGS ! 0, str ''t1''), (SONGS ! 4, str ''t3'')]
       \<and> renderSavedSongs st' = Inr v
       \<and> entries v = map saved_obj [(SONGS ! 0, str ''t1''), (SONGS ! 4, str ''t3'')])"
proof -
  let ?ss = "[(SONGS ! 0, str ''t1''), (SONGS ! 1, str ''t2''), (SONGS ! 4, str ''t3'')]"
  let ?st = "saveToStorage SAVED (JArr (map saved_obj ?ss)) Map.empty"
  have p: "persisted ?st ?ss" by (rule persisted_saved)
  have f: "filter (\<lambda>e. saved_id e \<noteq> saved_id (?ss ! 1)) ?ss
      = [(SONGS ! 0, str ''t1''), (SONGS ! 4, str ''t3'')]"
    by (simp add: saved_id_def SONGS_def)
  have "1 < length ?ss" by simp
  from removeClick_removes [OF p this] show ?thesis
    unfolding f using p by blast
qed

text \<open>
  C7. The list the Suggestions page displays is the catalog filtered by the stored mood,
  in catalog order, when preferences with a mood are stored, and the whole catalog
  otherwise (nothing stored, or an empty mood); a mood that no song has gives the empty
  list, and no error.
\<close>

theorem displayed_list:
  assumes "audio d \<noteq> None"
  shows "(st USER = None \<longrightarrow>
            initSuggestionsPage st d = Inr \<lparr>chosen = SONGS, currentIndex = - 1, doc = d\<rparr>)
       \<and> (st USER = Some (JSON_stringify (user_obj u)) \<longrightarrow>
            initSuggestionsPage st d =
              Inr \<lparr>chosen = (if user_mood u = [] then SONGS
                              else filter (\<lambda>s. mood s = user_mood u) SONGS),
                   currentIndex = - 1, doc = d\<rparr>)
       \<and> (st USER = Some (JSON_stringify (user_obj u)) \<and> user_mood u \<noteq> []
            \<and> (\<forall>s\<in>set SONGS. mood s \<noteq> user_mood u) \<longrightarrow>
            initSuggestionsPage st d = Inr \<lparr>chosen = [], currentIndex = - 1, doc = d\<rparr>)"
proof -
  obtain a where a: "audio d = Some a" using assms by auto
  have none: "st USER = None \<Longrightarrow>
      initSuggestionsPage st d = Inr \<lparr>chosen = SONGS, currentIndex = - 1, doc = d\<rparr>"
    using a by (simp add: initSuggestionsPage_def load_absent chosen_of_def)
  have some: "initSuggestionsPage st d =
      Inr \<lparr>chosen = (if user_mood u = [] then SONGS
                      else filter (\<lambda>s. mood s = user_mood u) SONGS),
           currentIndex = - 1, doc = d\<rparr>"
    if "st USER = Some (JSON_stringify (user_obj u))"
    using a load_stringify [of "user_obj u" st USER JNull, OF wf_user_obj that]
    by (simp add: initSuggestionsPage_def chosen_of_user_obj)
  have "filter (\<lambda>s. mood s = user_mood u) SONGS = []"
    if "\<forall>s\<in>set SONGS. mood s \<noteq> user_mood u"
    using that by (simp add: filter_empty_conv)
  with none some show ?thesis by auto
qed

text \<open>
  The stored mood \<open>chill\<close> displays the two chill songs, in catalog order; the mood
  \<open>sad\<close>, which no song has, displays none; an empty store displays the catalog.
\<close>

theorem displayed_list_witness:
  "audio dom0 \<noteq> None
   \<and> chill_store USER = Some (JSON_stringify (user_obj chill_prefs))
   \<and> initSuggestionsPage chill_store dom0 =
       Inr \<lparr>chosen = [SONGS ! 0, SONGS ! 4], currentIndex = - 1, doc = dom0\<rparr>
   \<and> initSuggestionsPage
         (saveToStorage USER (user_obj (chill_prefs\<lparr>user_mood := str ''sad''\<rparr>)) Map.empty) dom0 =
       Inr \<lparr>chosen = [], currentIndex = - 1, doc = dom0\<rparr>
   \<and> initSuggestionsPage Map.empty dom0 = Inr \<lparr>chosen = SONGS, currentIndex = - 1, doc = dom0\<rparr>"
proof -
  have a: "audio dom0 \<noteq> None" by (simp add: dom0_def)
  have c: "chill_store USER = Some (JSON_stringify (user_obj chill_prefs))"
    by (simp add: chill_store_def saveToStorage_def)
  have f: "filter (\<lambda>s. mood s = user_mood chill_prefs) SONGS = [SONGS ! 0, SONGS ! 4]"
    by (simp add: SONGS_def chill_prefs_def str_def cu_def)
  have m: "user_mood chill_prefs \<noteq> []" by (simp add: chill_prefs_def str_def)
  let ?sad = "chill_prefs\<lparr>user_mood := str ''sad''\<rparr>"
  let ?st = "saveToStorage USER (user_obj ?sad) Map.empty"
  have s: "?st USER = Some (JSON_stringify (user_obj ?sad))" "user_mood ?sad \<noteq> []"
    "\<forall>s\<in>set SONGS. mood s \<noteq> user_mood ?sad"
    by (simp_all add: saveToStorage_def SONGS_def str_def cu_def)
  show ?thesis
    using displayed_list [OF a, of chill_store chill_prefs]
      displayed_list [OF a, of ?st ?sad] displayed_list [OF a, of Map.empty]
      a c f m s
    by simp
qed

text \<open>
  C8. For a song of the catalog, a page with an audio element loaded with the query
  parameter \<open>play\<close> equal to the song's id has, once the timer has fired, the song's URL
  as the source of the audio element, one more call of \<open>play()\<close>, and, if there is a
  \<open>now\<close> element, the song's title in it. No error can come of it.
\<close>

theorem autoPlay_existing_id:
  assumes "s \<in> set SONGS" "audio d = Some a" "search \<noteq> []"
  shows "autoPlay search (Some (show_int (song_id s))) d =
     \<lparr>audio = Some \<lparr>src = url s, play_requests = Suc (play_requests a)\<rparr>,
      now = (case now d of None \<Rightarrow> None | Some t \<Rightarrow> Some (str ''Playing: '' @ title s))\<rparr>"
proof -
  let ?i = "findIndex (\<lambda>x. show_int (song_id x) = show_int (song_id s)) SONGS"
  have i: "0 \<le> ?i" "SONGS ! nat ?i = s"
    using findIndex_distinct [OF SONGS_id_texts_distinct assms(1)] by simp_all
  then have "attemptPlay (show_int (song_id s)) d =
     \<lparr>audio = Some \<lparr>src = url s, play_requests = Suc (play_requests a)\<rparr>,
      now = (case now d of None \<Rightarrow> None | Some t \<Rightarrow> Some (str ''Playing: '' @ title s))\<rparr>"
    using assms(2) by (simp add: attemptPlay_def Let_def split: option.splits)
  moreover have "show_int (song_id s) \<noteq> []"
    using show_int_start [of "song_id s"] by auto
  ultimately show ?thesis using assms(3)
    by (simp add: autoPlay_def checkAutoPlayOnLoad_def)
qed

text \<open>The third song, by \<open>?play=3\<close>.\<close>

theorem autoPlay_existing_id_witness:
  "SONGS ! 2 \<in> set SONGS \<and> audio dom0 = Some \<lparr>src = [], play_requests = 0\<rparr>
   \<and> str ''?play=3'' \<noteq> [] \<and> show_int (song_id (SONGS ! 2)) = str ''3''
   \<and> autoPlay (str ''?play=3'') (Some (str ''3'')) dom0 =
       \<lparr>audio = Some \<lparr>src = str ''https://www.soundhelix.com/examples/mp3/SoundHelix-Song-3.mp3'',
                       play_requests = 1\<rparr>,
        now = Some (str ''Playing: Neon Party'')\<rparr>"
proof -
  have a: "SONGS ! 2 \<in> set SONGS" by (simp add: SONGS_def)
  have b: "audio dom0 = Some \<lparr>src = [], play_requests = 0\<rparr>" by (simp add: dom0_def)
  have c: "str ''?play=3'' \<noteq> []" by (simp add: str_def)
  have d: "show_int (song_id (SONGS ! 2)) = str ''3''" by code_simp
  have e: "url (SONGS ! 2) = str ''https://www.soundhelix.com/examples/mp3/SoundHelix-Song-3.mp3''"
    "str ''Playing: '' @ title (SONGS ! 2) = str ''Playing: Neon Party''"
    "now dom0 = Some []"
    by (simp_all add: SONGS_def dom0_def str_def)
  from autoPlay_existing_id [OF a b c] a b c d e show ?thesis by simp
qed

text \<open>
  C9. Whatever the store holds, the clear-all control of the Profile page removes the
  saved-songs record: loading its key then gives the empty-list fallback, the rendered
  list is the placeholder, and no other key is touched.
\<close>

theorem clearClick_clears:
  "clearClick st = (st(SAVED := None), Inr Placeholder)
   \<and> loadFromStorage (fst (clearClick st)) SAVED (JArr []) = Inr (JArr [])
   \<and> fst (clearClick st) SAVED = None
   \<and> (if key = SAVED then True else fst (clearClick st) key = st key)"
  by (simp add: clearClick_def renderSavedSongs_def loadFromStorage_def Let_def)

text \<open>
  C10. When the \<open>play\<close> parameter is the decimal text of no id of the catalog, the delayed
  attempt leaves the page exactly as it is: the source, the count of \<open>play()\<close> calls and
  the \<open>now\<close> text are unchanged. No error can come of it.
\<close>

theorem autoPlay_unknown_id:
  assumes "\<forall>s\<in>set SONGS. show_int (song_id s) \<noteq> playId"
  shows "attemptPlay playId d = d \<and> autoPlay search (Some playId) d = d"
proof -
  have "findIndex (\<lambda>s. show_int (song_id s) = playId) SONGS = - 1"
    using assms by (simp add: findIndex_none)
  then have "attemptPlay playId d = d" by (simp add: attemptPlay_def)
  then show ?thesis by (simp add: autoPlay_def checkAutoPlayOnLoad_def)
qed

text \<open>A text that is no number, and the number of no song.\<close>

theorem autoPlay_unknown_id_witness:
  "str ''abc'' \<notin> set (map (\<lambda>s. show_int (song_id s)) SONGS)
   \<and> str ''6'' \<notin> set (map (\<lambda>s. show_int (song_id s)) SONGS)
   \<and> autoPlay (str ''?play=abc'') (Some (str ''abc'')) dom0 = dom0
   \<and> autoPlay (str ''?play=6'') (Some (str ''6'')) dom0 = dom0"
proof -
  have a: "str ''abc'' \<notin> set (map (\<lambda>s. show_int (song_id s)) SONGS)"
    "str ''6'' \<notin> set (map (\<lambda>s. show_int (song_id s)) SONGS)"
    unfolding SONGS_id_texts by (simp_all add: str_def cu_def)
  then have "\<forall>s\<in>set SONGS. show_int (song_id s) \<noteq> str ''abc''"
    "\<forall>s\<in>set SONGS. show_int (song_id s) \<noteq> str ''6''"
    by (auto intro: rev_image_eqI)
  from autoPlay_unknown_id [OF this(1)] autoPlay_unknown_id [OF this(2)] a
  show ?thesis by simp
qed

end
